theory Spec2Isabelle
  imports Complex_Main "HOL-Library.Word" "HOL-Library.Multiset"
begin

unbundle bit_operations_syntax

section \<open>C strings and character classes\<close>

text \<open>
  A C string is modelled by the bytes of its buffer. The terminator is the byte
  \<open>CHR 0x00\<close>; a read at an index beyond the modelled bytes yields the terminator,
  so that a \<open>string\<close> without a final NUL stands for the buffer holding these bytes
  followed by \<open>'\000'\<close>. Pointers into a buffer are indices.
\<close>

abbreviation NUL :: char where
  "NUL \<equiv> CHR 0x00"

definition peek :: "string \<Rightarrow> nat \<Rightarrow> char" where
  "peek buf i = (if i < length buf then buf ! i else NUL)"

lemma peek_in: "i < length s \<Longrightarrow> peek s i = s ! i"
  by (simp add: peek_def)

lemma peek_out: "length s \<le> i \<Longrightarrow> peek s i = NUL"
  by (simp add: peek_def)

lemma peek_NUL_iff: "NUL \<notin> set s \<Longrightarrow> peek s i = NUL \<longleftrightarrow> length s \<le> i"
  by (auto simp: peek_def dest: nth_mem)

text \<open>The C library's \<open>isalpha\<close>, \<open>isdigit\<close> and \<open>isalnum\<close> in the "C" locale.\<close>

definition isalpha :: "char \<Rightarrow> bool" where
  "isalpha c \<longleftrightarrow> c \<in> set ''ABCDEFGHIJKLMNOPQRSTUVWXYZabcdefghijklmnopqrstuvwxyz''"

definition isdigit :: "char \<Rightarrow> bool" where
  "isdigit c \<longleftrightarrow> c \<in> set ''0123456789''"

definition isalnum :: "char \<Rightarrow> bool" where
  "isalnum c \<longleftrightarrow> isalpha c \<or> isdigit c"

text \<open>
  Modelled from the spec: the constants of the libdbus header \<open>dbus-protocol.h\<close>,
  which is not part of the repository: the limit of 255 characters on names and the
  type codes of section 6.
\<close>

definition DBUS_MAXIMUM_NAME_LENGTH :: nat where
  "DBUS_MAXIMUM_NAME_LENGTH = 255"

abbreviation DBUS_TYPE_BYTE :: char where "DBUS_TYPE_BYTE \<equiv> CHR ''y''"
abbreviation DBUS_TYPE_BOOLEAN :: char where "DBUS_TYPE_BOOLEAN \<equiv> CHR ''b''"
abbreviation DBUS_TYPE_INT16 :: char where "DBUS_TYPE_INT16 \<equiv> CHR ''n''"
abbreviation DBUS_TYPE_UINT16 :: char where "DBUS_TYPE_UINT16 \<equiv> CHR ''q''"
abbreviation DBUS_TYPE_INT32 :: char where "DBUS_TYPE_INT32 \<equiv> CHR ''i''"
abbreviation DBUS_TYPE_UINT32 :: char where "DBUS_TYPE_UINT32 \<equiv> CHR ''u''"
abbreviation DBUS_TYPE_INT64 :: char where "DBUS_TYPE_INT64 \<equiv> CHR ''x''"
abbreviation DBUS_TYPE_UINT64 :: char where "DBUS_TYPE_UINT64 \<equiv> CHR ''t''"
abbreviation DBUS_TYPE_DOUBLE :: char where "DBUS_TYPE_DOUBLE \<equiv> CHR ''d''"
abbreviation DBUS_TYPE_STRING :: char where "DBUS_TYPE_STRING \<equiv> CHR ''s''"
abbreviation DBUS_TYPE_OBJECT_PATH :: char where "DBUS_TYPE_OBJECT_PATH \<equiv> CHR ''o''"
abbreviation DBUS_TYPE_SIGNATURE :: char where "DBUS_TYPE_SIGNATURE \<equiv> CHR ''g''"
abbreviation DBUS_TYPE_VARIANT :: char where "DBUS_TYPE_VARIANT \<equiv> CHR ''v''"
abbreviation DBUS_TYPE_ARRAY :: char where "DBUS_TYPE_ARRAY \<equiv> CHR ''a''"
abbreviation DBUS_STRUCT_BEGIN_CHAR :: char where "DBUS_STRUCT_BEGIN_CHAR \<equiv> CHR ''(''"
abbreviation DBUS_STRUCT_END_CHAR :: char where "DBUS_STRUCT_END_CHAR \<equiv> CHR '')''"
abbreviation DBUS_DICT_ENTRY_BEGIN_CHAR :: char where "DBUS_DICT_ENTRY_BEGIN_CHAR \<equiv> CHR ''{''"
abbreviation DBUS_DICT_ENTRY_END_CHAR :: char where "DBUS_DICT_ENTRY_END_CHAR \<equiv> CHR ''}''"

section \<open>Name grammar validators\<close>

subsection \<open>Bus names\<close>

text \<open>
  \<open>_check_bus_name\<close>: the \<open>for\<close> loop over \<open>i\<close> and \<open>ndots\<close>, returning both at the
  terminator, or \<open>None\<close> where the source returns 0 from inside the loop. Inside the
  loop \<open>name[i-1]\<close> is only evaluated for \<open>i > 0\<close>: at \<open>i = 0\<close> the character is not
  a dot (checked before the loop) and the digit case tests \<open>i > 0\<close> first.
\<close>

function check_bus_name_loop :: "string \<Rightarrow> nat \<Rightarrow> nat \<Rightarrow> (nat \<times> nat) option" where
  "check_bus_name_loop name i ndots =
     (if peek name i \<noteq> NUL then
        (if \<not> (isalpha (peek name i) \<or> peek name i = CHR ''_'' \<or> peek name i = CHR ''-'' \<or>
                (peek name i = CHR ''.'' \<and> peek name (i - 1) \<noteq> CHR ''.'' \<and>
                   peek name (i - 1) \<noteq> CHR '':'') \<or>
                (peek name i = CHR '':'' \<and> i = 0) \<or>
                (isdigit (peek name i) \<and> i > 0 \<and>
                   (peek name (i - 1) \<noteq> CHR ''.'' \<or> peek name 0 = CHR '':'')))
         then None
         else check_bus_name_loop name (i + 1) (if peek name i = CHR ''.'' then ndots + 1 else ndots))
      else Some (i, ndots))"
  by pat_completeness auto
termination
  by (relation "measure (\<lambda>(name, i, ndots). length name - i)") (auto simp: peek_def split: if_splits)

declare check_bus_name_loop.simps [simp del]

text \<open>
  After the loop the source reads \<open>name[i-1]\<close>, which for the empty name is the byte
  stored before the buffer: the parameter \<open>before\<close> stands for that byte.
\<close>

definition check_bus_name :: "char \<Rightarrow> string \<Rightarrow> bool" where
  "check_bus_name before name =
     (if peek name 0 = CHR ''.'' then False
      else case check_bus_name_loop name 0 0 of
             None \<Rightarrow> False
           | Some (i, ndots) \<Rightarrow>
               \<not> ((if i = 0 then before else peek name (i - 1)) = CHR ''.'' \<or> ndots = 0 \<or>
                  i > DBUS_MAXIMUM_NAME_LENGTH))"

text \<open>
  The grammar of bus names in the words of the specification (section 4.1): the name
  does not start with a dot; each character is alphabetic, \<open>_\<close>, \<open>-\<close>, a dot not
  adjacent to another dot and not following the leading colon, a colon at position 0,
  or a digit that is not at position 0 and not immediately after a dot unless the name
  starts with a colon; the name does not end with a dot, contains a dot, and has at
  most 255 characters.
\<close>

definition bus_name_char :: "string \<Rightarrow> nat \<Rightarrow> bool" where
  "bus_name_char s i \<longleftrightarrow>
     isalpha (s ! i) \<or> s ! i = CHR ''_'' \<or> s ! i = CHR ''-'' \<or>
     (s ! i = CHR ''.'' \<and> \<not> (0 < i \<and> s ! (i - 1) = CHR ''.'') \<and>
        \<not> (i + 1 < length s \<and> s ! (i + 1) = CHR ''.'') \<and> \<not> (i = 1 \<and> s ! 0 = CHR '':'')) \<or>
     (s ! i = CHR '':'' \<and> i = 0) \<or>
     (isdigit (s ! i) \<and> i \<noteq> 0 \<and> (s ! (i - 1) \<noteq> CHR ''.'' \<or> s ! 0 = CHR '':''))"

definition bus_name_grammar :: "string \<Rightarrow> bool" where
  "bus_name_grammar s \<longleftrightarrow>
     \<not> (s \<noteq> [] \<and> hd s = CHR ''.'') \<and>
     (\<forall>i \<in> {0..<length s}. bus_name_char s i) \<and>
     \<not> (s \<noteq> [] \<and> last s = CHR ''.'') \<and>
     CHR ''.'' \<in> set s \<and>
     length s \<le> 255"

text \<open>The test made by one iteration of the loop of \<open>_check_bus_name\<close>.\<close>

definition bus_name_step :: "string \<Rightarrow> nat \<Rightarrow> bool" where
  "bus_name_step s i \<longleftrightarrow>
     isalpha (s ! i) \<or> s ! i = CHR ''_'' \<or> s ! i = CHR ''-'' \<or>
     (s ! i = CHR ''.'' \<and> s ! (i - 1) \<noteq> CHR ''.'' \<and> s ! (i - 1) \<noteq> CHR '':'') \<or>
     (s ! i = CHR '':'' \<and> i = 0) \<or>
     (isdigit (s ! i) \<and> i > 0 \<and> (s ! (i - 1) \<noteq> CHR ''.'' \<or> s ! 0 = CHR '':''))"

lemma check_bus_name_loop_eq:
  "NUL \<notin> set s \<Longrightarrow> i \<le> length s \<Longrightarrow>
    check_bus_name_loop s i n =
      (if \<forall>j \<in> {i..<length s}. bus_name_step s j
       then Some (length s, n + length (filter ((=) CHR ''.'') (drop i s))) else None)"
proof (induction s i n rule: check_bus_name_loop.induct)
  case (1 name i ndots)
  show ?case
  proof (cases "i < length name")
    case True
    have split: "{i..<length name} = insert i {i + 1..<length name}"
      using True by auto
    have nn: "peek name i \<noteq> NUL" "peek name i = name ! i" "peek name (i - 1) = name ! (i - 1)"
      "peek name 0 = name ! 0"
      using True 1(2) peek_NUL_iff[of name i] by (auto simp: peek_def)
    have dr: "drop i name = name ! i # drop (i + 1) name"
      using True by (simp add: Cons_nth_drop_Suc)
    show ?thesis
    proof (cases "bus_name_step name i")
      case ok: True
      then have "check_bus_name_loop name i ndots =
          check_bus_name_loop name (i + 1) (if name ! i = CHR ''.'' then ndots + 1 else ndots)"
        using nn True by (subst check_bus_name_loop.simps) (simp add: bus_name_step_def)
      also have "\<dots> = (if \<forall>j \<in> {i+1..<length name}. bus_name_step name j
          then Some (length name, (if name ! i = CHR ''.'' then ndots + 1 else ndots) +
             length (filter ((=) CHR ''.'') (drop (i + 1) name))) else None)"
        using "1.IH" "1.prems" nn True ok by (simp add: bus_name_step_def)
      finally show ?thesis using ok by (simp only: split dr) simp
    next
      case bad: False
      then have "check_bus_name_loop name i ndots = None"
        using nn True by (subst check_bus_name_loop.simps) (simp add: bus_name_step_def)
      then show ?thesis using bad by (simp only: split) simp
    qed
  next
    case False
    with 1 show ?thesis
      by (subst check_bus_name_loop.simps) (simp add: peek_out)
  qed
qed

lemma no_dots_iff: "length (filter ((=) c) s) = 0 \<longleftrightarrow> c \<notin> set s"
  by (induction s) auto

lemma not_alpha_special [simp]:
  "\<not> isalpha CHR ''.''" "\<not> isalpha CHR '':''" "\<not> isdigit CHR ''.''" "\<not> isdigit CHR '':''"
  by (simp_all add: isalpha_def isdigit_def)

lemma bus_name_chars_iff:
  assumes "s \<noteq> []" "hd s \<noteq> CHR ''.''"
  shows "(\<forall>j \<in> {0..<length s}. bus_name_step s j) \<longleftrightarrow> (\<forall>j \<in> {0..<length s}. bus_name_char s j)"
proof
  assume st: "\<forall>j \<in> {0..<length s}. bus_name_step s j"
  show "\<forall>j \<in> {0..<length s}. bus_name_char s j"
  proof
    fix j assume j: "j \<in> {0..<length s}"
    then have sj: "bus_name_step s j" using st by blast
    have nxt: "j + 1 < length s \<Longrightarrow> s ! j = CHR ''.'' \<Longrightarrow> s ! (j + 1) \<noteq> CHR ''.''"
    proof
      assume a: "j + 1 < length s" "s ! j = CHR ''.''" "s ! (j + 1) = CHR ''.''"
      then have "bus_name_step s (j + 1)" using st by simp
      then show False using a by (simp add: bus_name_step_def)
    qed
    show "bus_name_char s j"
      using sj nxt unfolding bus_name_step_def bus_name_char_def
      by (cases "j = 0") auto
  qed
next
  assume ch: "\<forall>j \<in> {0..<length s}. bus_name_char s j"
  show "\<forall>j \<in> {0..<length s}. bus_name_step s j"
  proof
    fix j assume j: "j \<in> {0..<length s}"
    then have cj: "bus_name_char s j" using ch by blast
    have h0: "s ! 0 \<noteq> CHR ''.''" using assms by (simp add: hd_conv_nth)
    have prev: "0 < j \<Longrightarrow> s ! j = CHR ''.'' \<Longrightarrow> s ! (j - 1) \<noteq> CHR '':''"
    proof
      assume a: "0 < j" "s ! j = CHR ''.''" "s ! (j - 1) = CHR '':''"
      then have "bus_name_char s (j - 1)" using ch j by simp
      then have "j - 1 = 0" using a by (simp add: bus_name_char_def)
      then have "j = 1" using a by simp
      then show False using cj a by (simp add: bus_name_char_def)
    qed
    show "bus_name_step s j"
      using cj prev h0 unfolding bus_name_step_def bus_name_char_def
      by (cases "j = 0") auto
  qed
qed

lemma check_bus_name_iff_grammar:
  assumes "NUL \<notin> set s"
  shows "check_bus_name b s \<longleftrightarrow> bus_name_grammar s"
proof (cases "s = []")
  case True
  then show ?thesis
    by (simp add: check_bus_name_def bus_name_grammar_def peek_def check_bus_name_loop.simps)
next
  case False
  then have len: "0 < length s" by simp
  have p0: "peek s 0 = hd s" using False by (simp add: peek_def hd_conv_nth)
  have pl: "peek s (length s - 1) = last s" using False by (simp add: peek_def last_conv_nth)
  show ?thesis
  proof (cases "hd s = CHR ''.''")
    case True
    then show ?thesis using False by (simp add: check_bus_name_def bus_name_grammar_def p0)
  next
    case nd: False
    have "check_bus_name b s \<longleftrightarrow> (\<forall>j \<in> {0..<length s}. bus_name_step s j) \<and>
        \<not> (last s = CHR ''.'' \<or> CHR ''.'' \<notin> set s \<or> length s > 255)"
      unfolding check_bus_name_def p0 pl[symmetric] DBUS_MAXIMUM_NAME_LENGTH_def
      using nd len no_dots_iff[of "CHR ''.''" s]
      by (auto simp: check_bus_name_loop_eq[OF assms])
    also have "\<dots> \<longleftrightarrow> bus_name_grammar s"
      unfolding bus_name_grammar_def bus_name_chars_iff[OF False nd] using nd False by auto
    finally show ?thesis .
  qed
qed

text \<open>
  C7: for a C string \<open>s\<close> (no NUL inside), \<open>_check_bus_name\<close> accepts \<open>s\<close> exactly when
  \<open>s\<close> satisfies the bus-name grammar, whatever byte precedes the buffer; the unique
  name \<open>:1.42\<close> is accepted and \<open>foo\<close>, which has no dot, is rejected.
\<close>

theorem check_bus_name_grammar:
  "(NUL \<notin> set s \<longrightarrow> (check_bus_name b s \<longleftrightarrow> bus_name_grammar s)) \<and>
   check_bus_name b '':1.42'' \<and> \<not> check_bus_name b ''foo''"
proof -
  have "check_bus_name b '':1.42'' = bus_name_grammar '':1.42''"
    by (rule check_bus_name_iff_grammar) simp
  moreover have "bus_name_grammar '':1.42''"
    by code_simp
  moreover have "check_bus_name b ''foo'' = bus_name_grammar ''foo''"
    by (rule check_bus_name_iff_grammar) simp
  moreover have "\<not> bus_name_grammar ''foo''"
    by (simp add: bus_name_grammar_def)
  ultimately show ?thesis
    using check_bus_name_iff_grammar[of s b] by blast
qed

theorem check_bus_name_grammar_witness:
  "NUL \<notin> set ''org.freedesktop.DBus'' \<and> check_bus_name CHR ''x'' ''org.freedesktop.DBus'' \<and>
   bus_name_grammar ''org.freedesktop.DBus''"
proof -
  have a: "NUL \<notin> set ''org.freedesktop.DBus''" by simp
  have b: "check_bus_name CHR ''x'' ''org.freedesktop.DBus''" by code_simp
  from check_bus_name_grammar[of "''org.freedesktop.DBus''" "CHR ''x''"] a b
  show ?thesis by blast
qed

subsection \<open>Object paths\<close>

text \<open>
  \<open>_check_path\<close>: the \<open>for\<close> loop from index 1, returning the index of the
  terminator, or \<open>None\<close> where the source returns 0 from inside the loop.
\<close>

function check_path_loop :: "string \<Rightarrow> nat \<Rightarrow> nat option" where
  "check_path_loop path i =
     (if peek path i \<noteq> NUL then
        (if \<not> (isalnum (peek path i) \<or> peek path i = CHR ''_'' \<or>
                (peek path i = CHR ''/'' \<and> peek path (i - 1) \<noteq> CHR ''/''))
         then None
         else check_path_loop path (i + 1))
      else Some i)"
  by pat_completeness auto
termination
  by (relation "measure (\<lambda>(path, i). length path - i)") (auto simp: peek_def split: if_splits)

declare check_path_loop.simps [simp del]

definition check_path :: "string \<Rightarrow> bool" where
  "check_path path =
     (if peek path 0 \<noteq> CHR ''/'' then False
      else case check_path_loop path 1 of
             None \<Rightarrow> False
           | Some i \<Rightarrow> \<not> (i > 1 \<and> peek path (i - 1) = CHR ''/''))"

text \<open>
  The grammar of object paths in the words of the specification (section 4.1):
  the path starts with \<open>/\<close>; every subsequent character is alphanumeric, \<open>_\<close>, or a
  \<open>/\<close> not immediately preceded by another \<open>/\<close>; and the path does not end with
  \<open>/\<close> unless it is exactly \<open>/\<close>.
\<close>

definition path_grammar :: "string \<Rightarrow> bool" where
  "path_grammar s \<longleftrightarrow>
     s \<noteq> [] \<and> hd s = CHR ''/'' \<and>
     (\<forall>i \<in> {1..<length s}.
        isalnum (s ! i) \<or> s ! i = CHR ''_'' \<or> (s ! i = CHR ''/'' \<and> s ! (i - 1) \<noteq> CHR ''/'')) \<and>
     (last s = CHR ''/'' \<longrightarrow> s = ''/'')"

definition path_char_ok :: "string \<Rightarrow> nat \<Rightarrow> bool" where
  "path_char_ok s i \<longleftrightarrow>
     isalnum (s ! i) \<or> s ! i = CHR ''_'' \<or> (s ! i = CHR ''/'' \<and> s ! (i - 1) \<noteq> CHR ''/'')"

lemma check_path_loop_eq:
  "NUL \<notin> set s \<Longrightarrow> i \<le> length s \<Longrightarrow> 
    check_path_loop s i = (if \<forall>j \<in> {i..<length s}. path_char_ok s j then Some (length s) else None)"
proof (induction s i rule: check_path_loop.induct)
  case (1 path i)
  show ?case
  proof (cases "i < length path")
    case True
    have split: "{i..<length path} = insert i {i + 1..<length path}"
      using True by auto
    have nn: "peek path i \<noteq> NUL" "peek path i = path ! i" "peek path (i - 1) = path ! (i - 1)"
      using True 1(2) peek_NUL_iff[of path i] by (simp_all add: peek_in)
    show ?thesis
    proof (cases "path_char_ok path i")
      case ok: True
      then have "check_path_loop path i = check_path_loop path (i + 1)"
        using nn True by (subst check_path_loop.simps) (simp add: path_char_ok_def)
      also have "\<dots> = (if \<forall>j \<in> {i+1..<length path}. path_char_ok path j then Some (length path) else None)"
        using 1 nn True ok by (intro "1.IH") (simp_all add: path_char_ok_def)
      finally show ?thesis using ok by (simp only: split) simp
    next
      case bad: False
      then have "check_path_loop path i = None"
        using nn True by (subst check_path_loop.simps) (simp add: path_char_ok_def)
      then show ?thesis using bad by (simp only: split) simp
    qed
  next
    case False
    with 1 show ?thesis
      by (subst check_path_loop.simps) (simp add: peek_out)
  qed
qed

lemma check_path_iff_grammar:
  assumes "NUL \<notin> set s"
  shows "check_path s \<longleftrightarrow> path_grammar s"
proof (cases s)
  case Nil
  then show ?thesis by (simp add: check_path_def path_grammar_def peek_def)
next
  case (Cons c cs)
  then have len: "1 \<le> length s" by simp
  have p0: "peek s 0 = hd s" using Cons by (simp add: peek_def)
  have pl: "peek s (length s - 1) = last s" using Cons by (simp add: peek_def last_conv_nth)
  have g: "path_grammar s \<longleftrightarrow> hd s = CHR ''/'' \<and> (\<forall>i \<in> {1..<length s}. path_char_ok s i) \<and>
     (last s = CHR ''/'' \<longrightarrow> s = ''/'')"
    using Cons unfolding path_grammar_def path_char_ok_def by simp
  show ?thesis
  proof (cases "hd s = CHR ''/''")
    case False
    then show ?thesis unfolding g check_path_def p0 by simp
  next
    case True
    then have c: "c = CHR ''/''" using Cons by simp
    have e: "1 < length s \<longleftrightarrow> s \<noteq> ''/''" unfolding Cons c by simp
    have "check_path s \<longleftrightarrow> (\<forall>i \<in> {1..<length s}. path_char_ok s i) \<and>
        \<not> (1 < length s \<and> last s = CHR ''/'')"
      unfolding check_path_def p0 check_path_loop_eq[OF assms len] pl[symmetric]
      using True by (simp del: One_nat_def)
    also have "\<dots> \<longleftrightarrow> path_grammar s"
      unfolding g e using True by blast
    finally show ?thesis .
  qed
qed

text \<open>
  C8: for a C string \<open>s\<close> (no NUL inside), \<open>_check_path\<close> accepts \<open>s\<close> exactly when \<open>s\<close>
  satisfies the object-path grammar; \<open>/\<close> is accepted, \<open>//\<close> and \<open>a//b\<close> are rejected.
\<close>

theorem check_path_grammar:
  "(NUL \<notin> set s \<longrightarrow> (check_path s \<longleftrightarrow> path_grammar s)) \<and>
   check_path ''/'' \<and> \<not> check_path ''//'' \<and> \<not> check_path ''a//b''"
proof -
  have "check_path ''/''" "\<not> check_path ''//''" "\<not> check_path ''a//b''"
    by code_simp+
  then show ?thesis
    using check_path_iff_grammar[of s] by blast
qed

theorem check_path_grammar_witness:
  "NUL \<notin> set ''/org/freedesktop/DBus'' \<and> check_path ''/org/freedesktop/DBus'' \<and>
   path_grammar ''/org/freedesktop/DBus''"
proof -
  have a: "NUL \<notin> set ''/org/freedesktop/DBus''" by simp
  have b: "check_path ''/org/freedesktop/DBus''" by code_simp
  from check_path_grammar[of "''/org/freedesktop/DBus''"] a b
  show ?thesis by blast
qed

section \<open>Signature grammar engine\<close>

subsection \<open>One full type\<close>

text \<open>
  The \<open>while\<close> loop of \<open>get_one_full_type\<close>, which looks for the closer matching the
  opener at \<open>signature\<close>: \<open>*++end != '\000' && depth > 0\<close> is tested at \<open>end + 1\<close>, and the
  loop returns the incremented \<open>end\<close> together with \<open>depth\<close>. Here \<open>opn\<close> is \<open>*signature\<close>
  and \<open>cls\<close> is \<open>endtype\<close>.
\<close>

function get_one_full_type_scan :: "string \<Rightarrow> char \<Rightarrow> char \<Rightarrow> nat \<Rightarrow> nat \<Rightarrow> nat \<times> nat" where
  "get_one_full_type_scan buf opn cls e depth =
     (if peek buf (e + 1) \<noteq> NUL \<and> depth > 0 then
        get_one_full_type_scan buf opn cls (e + 1)
          (if peek buf (e + 1) = opn then depth + 1
           else if peek buf (e + 1) = cls then depth - 1
           else depth)
      else (e + 1, depth))"
  by pat_completeness auto
termination
  by (relation "measure (\<lambda>(buf, opn, cls, e, depth). length buf - e)")
    (auto simp: peek_def split: if_splits)

declare get_one_full_type_scan.simps [simp del]

text \<open>
  \<open>get_one_full_type\<close>: the pointer past the first full type at \<open>signature\<close>, or \<open>None\<close>
  where the source returns \<open>NULL\<close> (end of string, or an opener that is not closed).
\<close>

function get_one_full_type :: "string \<Rightarrow> nat \<Rightarrow> nat option" where
  "get_one_full_type buf signature =
     (if peek buf signature = DBUS_TYPE_ARRAY then get_one_full_type buf (signature + 1)
      else if peek buf signature = DBUS_STRUCT_BEGIN_CHAR then
        (case get_one_full_type_scan buf (peek buf signature) DBUS_STRUCT_END_CHAR signature 1 of
           (e, depth) \<Rightarrow> if depth \<noteq> 0 then None else Some e)
      else if peek buf signature = DBUS_DICT_ENTRY_BEGIN_CHAR then
        (case get_one_full_type_scan buf (peek buf signature) DBUS_DICT_ENTRY_END_CHAR signature 1 of
           (e, depth) \<Rightarrow> if depth \<noteq> 0 then None else Some e)
      else if peek buf signature = NUL then None
      else Some (signature + 1))"
  by pat_completeness auto
termination
  by (relation "measure (\<lambda>(buf, signature). length buf - signature)")
    (auto simp: peek_def split: if_splits)

declare get_one_full_type.simps [simp del]

lemma scan_step:
  "peek buf (e + 1) \<noteq> NUL \<Longrightarrow> 0 < d \<Longrightarrow>
   get_one_full_type_scan buf opn cls e d =
     get_one_full_type_scan buf opn cls (e + 1)
       (if peek buf (e + 1) = opn then d + 1 else if peek buf (e + 1) = cls then d - 1 else d)"
  by (subst get_one_full_type_scan.simps) simp

lemma scan_stop:
  "peek buf (e + 1) = NUL \<or> d = 0 \<Longrightarrow> get_one_full_type_scan buf opn cls e d = (e + 1, d)"
  by (subst get_one_full_type_scan.simps) auto

lemma get_one_full_type_scan_mono:
  "get_one_full_type_scan buf opn cls e d = (e', d') \<Longrightarrow> e < e'"
proof (induction buf opn cls e d rule: get_one_full_type_scan.induct)
  case (1 buf opn cls e depth)
  show ?case
  proof (cases "peek buf (e + 1) \<noteq> NUL \<and> depth > 0")
    case True
    then have "get_one_full_type_scan buf opn cls (e + 1)
       (if peek buf (e + 1) = opn then depth + 1 else if peek buf (e + 1) = cls then depth - 1 else depth)
       = (e', d')"
      using "1.prems" scan_step[of buf e depth opn cls] by simp
    from "1.IH"[OF True this] show ?thesis by simp
  next
    case False
    then show ?thesis using "1.prems" scan_stop[of buf e depth opn cls] by auto
  qed
qed

lemma get_one_full_type_gt:
  "get_one_full_type buf p = Some e \<Longrightarrow> p < e"
proof (induction buf p rule: get_one_full_type.induct)
  case (1 buf signature)
  show ?case
  proof (cases "peek buf signature = DBUS_TYPE_ARRAY")
    case True
    then have "get_one_full_type buf (signature + 1) = Some e"
      using "1.prems" by (subst (asm) get_one_full_type.simps) simp
    from "1.IH"[OF True this] show ?thesis by simp
  next
    case False
    then show ?thesis
      using "1.prems"
      by (subst (asm) get_one_full_type.simps)
        (auto split: if_splits prod.splits dest: get_one_full_type_scan_mono)
  qed
qed

subsection \<open>The signature validator\<close>

text \<open>
  \<open>_check_signature\<close> works in place: it writes a terminator into the caller's buffer
  before it recurses and writes the stored character back afterwards. The model
  threads the buffer through and returns it with the result, so that every write of
  the source is a list update and every early \<open>return 0\<close> returns the buffer as it is
  then. \<open>start\<close> and \<open>ptr\<close> are the variables of the source; \<open>end\<close> equals \<open>ptr\<close> each
  time the loop condition is tested, hence the final test reads \<open>ptr - start\<close>.
  \<open>strchr\<close> is applied to the literal \<open>basic_type_codes\<close> and a character that is not
  the terminator.
\<close>

definition basic_type_codes :: string where
  "basic_type_codes = ''ybnqiuxtdsogvh''"

function check_signature_buf :: "string \<Rightarrow> nat \<Rightarrow> nat \<Rightarrow> nat \<Rightarrow> nat \<Rightarrow> bool \<times> string" where
  "check_signature_buf buf start ptr arraydepth structdepth =
     (if peek buf ptr \<noteq> NUL then
        (case get_one_full_type buf ptr of
           None \<Rightarrow> (False, buf)
         | Some e \<Rightarrow>
             if e - ptr = 1 then
               (if peek buf ptr \<notin> set basic_type_codes then (False, buf)
                else check_signature_buf buf start e arraydepth structdepth)
             else if peek buf ptr = DBUS_TYPE_ARRAY then
               (if arraydepth \<ge> 32 then (False, buf)
                else
                  (case check_signature_buf (buf[e := NUL]) (ptr + 1) (ptr + 1)
                          (arraydepth + 1) structdepth of
                     (ok, buf') \<Rightarrow>
                       if \<not> ok then (False, buf')
                       else check_signature_buf (buf'[e := peek buf e]) start e
                              arraydepth structdepth))
             else if peek buf ptr = DBUS_STRUCT_BEGIN_CHAR \<or>
                     peek buf ptr = DBUS_DICT_ENTRY_BEGIN_CHAR then
               (if structdepth \<ge> 32 then (False, buf)
                else
                  (case check_signature_buf (buf[e - 1 := NUL]) (ptr + 1) (ptr + 1)
                          arraydepth (structdepth + 1) of
                     (ok, buf') \<Rightarrow>
                       if \<not> ok then (False, buf')
                       else if (peek (buf'[e - 1 := peek buf (e - 1)]) ptr = DBUS_STRUCT_BEGIN_CHAR \<and>
                                  peek buf (e - 1) \<noteq> DBUS_STRUCT_END_CHAR) \<or>
                               (peek (buf'[e - 1 := peek buf (e - 1)]) ptr = DBUS_DICT_ENTRY_BEGIN_CHAR \<and>
                                  peek buf (e - 1) \<noteq> DBUS_DICT_ENTRY_END_CHAR)
                       then (False, buf'[e - 1 := peek buf (e - 1)])
                       else check_signature_buf (buf'[e - 1 := peek buf (e - 1)]) start e
                              arraydepth structdepth))
             else check_signature_buf buf start e arraydepth structdepth)
      else (if ptr - start > 255 then (False, buf) else (True, buf)))"
  by pat_completeness auto

text \<open>
  The recursion is nested: the loop goes on in the buffer that the recursive call
  returns. A call never changes the length of the buffer, which gives termination.
\<close>

lemma peek_nonNUL_lt: "peek buf p \<noteq> NUL \<Longrightarrow> p < length buf"
  by (auto simp: peek_def split: if_splits)

lemma check_signature_buf_length:
  "check_signature_buf_dom (buf, start, ptr, ad, sd) \<Longrightarrow>
     length (snd (check_signature_buf buf start ptr ad sd)) = length buf"
proof (induction buf start ptr ad sd rule: check_signature_buf.pinduct)
  case (1 buf start ptr ad sd)
  note eq = check_signature_buf.psimps[OF "1.hyps"]
  show ?case
  proof (cases "peek buf ptr \<noteq> NUL")
    case False
    then show ?thesis by (subst eq) simp
  next
    case nz: True
    show ?thesis
    proof (cases "get_one_full_type buf ptr")
      case None
      then show ?thesis using nz by (subst eq) simp
    next
      case (Some e)
      note ih = "1.IH"[OF nz Some]
      show ?thesis
      proof (cases "e - ptr = 1")
        case True
        then show ?thesis using nz Some ih(1) by (subst eq) simp
      next
        case ne1: False
        show ?thesis
        proof (cases "peek buf ptr = DBUS_TYPE_ARRAY")
          case arr: True
          show ?thesis
          proof (cases "32 \<le> ad")
            case True
            then show ?thesis using nz Some ne1 arr by (subst eq) simp
          next
            case dep: False
            obtain ok buf' where r: "check_signature_buf (buf[e := NUL]) (ptr + 1) (ptr + 1) (ad + 1) sd = (ok, buf')"
              by (cases "check_signature_buf (buf[e := NUL]) (ptr + 1) (ptr + 1) (ad + 1) sd")
            have l1: "length buf' = length buf"
              using ih(2)[OF ne1 arr dep] r by simp
            show ?thesis
            proof (cases ok)
              case False
              then show ?thesis using nz Some ne1 arr dep r l1 by (subst eq) simp
            next
              case True
              have "length (snd (check_signature_buf (buf'[e := peek buf e]) start e ad sd)) = length buf"
                using ih(3)[OF ne1 arr dep r[symmetric]] True l1 by simp
              then show ?thesis using nz Some ne1 arr dep r True by (subst eq) simp
            qed
          qed
        next
          case narr: False
          show ?thesis
          proof (cases "peek buf ptr = DBUS_STRUCT_BEGIN_CHAR \<or> peek buf ptr = DBUS_DICT_ENTRY_BEGIN_CHAR")
            case False
            then show ?thesis using nz Some ne1 narr ih(6) by (subst eq) simp
          next
            case st: True
            show ?thesis
            proof (cases "32 \<le> sd")
              case True
              then show ?thesis using nz Some ne1 narr st by (subst eq) auto
            next
              case dep: False
              obtain ok buf' where r: "check_signature_buf (buf[e - 1 := NUL]) (ptr + 1) (ptr + 1) ad (sd + 1) = (ok, buf')"
                by (cases "check_signature_buf (buf[e - 1 := NUL]) (ptr + 1) (ptr + 1) ad (sd + 1)")
              have l1: "length buf' = length buf"
                using ih(4)[OF ne1 narr st dep] r by simp
              show ?thesis
              proof (cases ok)
                case False
                then show ?thesis using nz Some ne1 narr st dep r l1 by (subst eq) auto
              next
                case True
                let ?b = "buf'[e - 1 := peek buf (e - 1)]"
                show ?thesis
                proof (cases "(peek ?b ptr = DBUS_STRUCT_BEGIN_CHAR \<and> peek buf (e - 1) \<noteq> DBUS_STRUCT_END_CHAR) \<or>
                               (peek ?b ptr = DBUS_DICT_ENTRY_BEGIN_CHAR \<and> peek buf (e - 1) \<noteq> DBUS_DICT_ENTRY_END_CHAR)")
                  case bad: True
                  then show ?thesis using nz Some ne1 narr st dep r l1 True by (subst eq) auto
                next
                  case good: False
                  have "length (snd (check_signature_buf ?b start e ad sd)) = length buf"
                    using ih(5)[OF ne1 narr st dep r[symmetric] _ good] True l1 by simp
                  then show ?thesis using nz Some ne1 narr st dep r True good by (subst eq) auto
                qed
              qed
            qed
          qed
        qed
      qed
    qed
  qed
qed

termination check_signature_buf
proof (relation "measure (\<lambda>(buf, start, ptr, ad, sd). length buf - ptr)", goal_cases)
  case 1
  show ?case by simp
next
  case (2 buf start ptr ad sd e)
  then show ?case using get_one_full_type_gt[of buf ptr e] peek_nonNUL_lt[of buf ptr] by simp
next
  case (3 buf start ptr ad sd e)
  then show ?case using peek_nonNUL_lt[of buf ptr] by simp
next
  case (4 buf start ptr ad sd e ok buf')
  then show ?case
    using get_one_full_type_gt[of buf ptr e] peek_nonNUL_lt[of buf ptr]
      check_signature_buf_length[of "buf[e := NUL]" "ptr + 1" "ptr + 1" "ad + 1" sd]
    by (simp del: One_nat_def) (metis diff_less_mono2 snd_conv length_list_update)
next
  case (5 buf start ptr ad sd e)
  then show ?case using peek_nonNUL_lt[of buf ptr] by simp
next
  case (6 buf start ptr ad sd e ok buf')
  then show ?case
    using get_one_full_type_gt[of buf ptr e] peek_nonNUL_lt[of buf ptr]
      check_signature_buf_length[of "buf[e - 1 := NUL]" "ptr + 1" "ptr + 1" ad "sd + 1"]
    by (simp del: One_nat_def) (metis diff_less_mono2 snd_conv length_list_update)
next
  case (7 buf start ptr ad sd e)
  then show ?case using get_one_full_type_gt[of buf ptr e] peek_nonNUL_lt[of buf ptr] by simp
qed

declare check_signature_buf.simps [simp del]

text \<open>
  The entry points call \<open>_check_signature(signature, 0, 0)\<close> on a C string: the buffer
  holds the characters of the string followed by the terminator.
  \<open>check_signature_buffer\<close> is the caller's buffer after the call.
\<close>

definition check_signature :: "string \<Rightarrow> bool" where
  "check_signature s = fst (check_signature_buf (s @ [NUL]) 0 0 0 0)"

definition check_signature_buffer :: "string \<Rightarrow> string" where
  "check_signature_buffer s = snd (check_signature_buf (s @ [NUL]) 0 0 0 0)"

subsection \<open>The signature grammar of the specification\<close>

text \<open>
  The data model of section 3 in the words of the specification: a full type is a
  single basic-type character out of the 14 recognised codes, an array marker followed
  by exactly one full type, or a bracketed sequence (struct or dict-entry) of zero or
  more full types with its matching closer. A signature is the concatenation of the
  renderings of its full types.
\<close>

datatype basic_type =
  BYTE | BOOLEAN | INT16 | UINT16 | INT32 | UINT32 | INT64 | UINT64 | DOUBLE |
  STRING | OBJECT_PATH | SIGNATURE | VARIANT | UNIX_FD

fun type_code :: "basic_type \<Rightarrow> char" where
  "type_code BYTE = CHR ''y''"
| "type_code BOOLEAN = CHR ''b''"
| "type_code INT16 = CHR ''n''"
| "type_code UINT16 = CHR ''q''"
| "type_code INT32 = CHR ''i''"
| "type_code UINT32 = CHR ''u''"
| "type_code INT64 = CHR ''x''"
| "type_code UINT64 = CHR ''t''"
| "type_code DOUBLE = CHR ''d''"
| "type_code STRING = CHR ''s''"
| "type_code OBJECT_PATH = CHR ''o''"
| "type_code SIGNATURE = CHR ''g''"
| "type_code VARIANT = CHR ''v''"
| "type_code UNIX_FD = CHR ''h''"

datatype full_type =
  Basic basic_type
| Array full_type
| Struct "full_type list"
| DictEntry "full_type list"

fun render1 :: "full_type \<Rightarrow> string" where
  "render1 (Basic b) = [type_code b]"
| "render1 (Array t) = DBUS_TYPE_ARRAY # render1 t"
| "render1 (Struct ts) =
     DBUS_STRUCT_BEGIN_CHAR # concat (map render1 ts) @ [DBUS_STRUCT_END_CHAR]"
| "render1 (DictEntry ts) =
     DBUS_DICT_ENTRY_BEGIN_CHAR # concat (map render1 ts) @ [DBUS_DICT_ENTRY_END_CHAR]"

definition render :: "full_type list \<Rightarrow> string" where
  "render ts = concat (map render1 ts)"

text \<open>
  Array nesting depth and struct/dict-entry nesting depth of a full type: two separate
  counters, as in the specification.
\<close>

fun array_depth :: "full_type \<Rightarrow> nat" where
  "array_depth (Basic b) = 0"
| "array_depth (Array t) = 1 + array_depth t"
| "array_depth (Struct ts) = fold max (map array_depth ts) 0"
| "array_depth (DictEntry ts) = fold max (map array_depth ts) 0"

fun struct_depth :: "full_type \<Rightarrow> nat" where
  "struct_depth (Basic b) = 0"
| "struct_depth (Array t) = struct_depth t"
| "struct_depth (Struct ts) = 1 + fold max (map struct_depth ts) 0"
| "struct_depth (DictEntry ts) = 1 + fold max (map struct_depth ts) 0"

text \<open>
  Balanced brackets: every closer matches the most recent opener that is still open,
  and no opener is left open at the end. The first argument is the stack of open
  brackets.
\<close>

fun balanced_from :: "char list \<Rightarrow> string \<Rightarrow> bool" where
  "balanced_from st [] = (st = [])"
| "balanced_from st (c # cs) =
     (if c = DBUS_STRUCT_BEGIN_CHAR \<or> c = DBUS_DICT_ENTRY_BEGIN_CHAR then balanced_from (c # st) cs
      else if c = DBUS_STRUCT_END_CHAR then
        (case st of [] \<Rightarrow> False | x # st' \<Rightarrow> x = DBUS_STRUCT_BEGIN_CHAR \<and> balanced_from st' cs)
      else if c = DBUS_DICT_ENTRY_END_CHAR then
        (case st of [] \<Rightarrow> False | x # st' \<Rightarrow> x = DBUS_DICT_ENTRY_BEGIN_CHAR \<and> balanced_from st' cs)
      else balanced_from st cs)"

definition balanced :: "string \<Rightarrow> bool" where
  "balanced s = balanced_from [] s"

subsection \<open>The validator on renderings\<close>

text \<open>The two opener/closer pairs that \<open>get_one_full_type\<close> scans for.\<close>

definition bracket_pair :: "char \<Rightarrow> char \<Rightarrow> bool" where
  "bracket_pair opn cls \<longleftrightarrow>
     (opn = DBUS_STRUCT_BEGIN_CHAR \<and> cls = DBUS_STRUCT_END_CHAR) \<or>
     (opn = DBUS_DICT_ENTRY_BEGIN_CHAR \<and> cls = DBUS_DICT_ENTRY_END_CHAR)"

lemma type_code_plain:
  "type_code b \<noteq> NUL" "type_code b \<noteq> CHR ''a''" "type_code b \<noteq> CHR ''(''"
  "type_code b \<noteq> CHR '')''" "type_code b \<noteq> CHR ''{''" "type_code b \<noteq> CHR ''}''"
  by (cases b; simp)+

lemma type_code_not_NUL [simp]: "NUL \<noteq> type_code b" "type_code b \<noteq> NUL"
  by (cases b; simp)+

lemma type_code_alphabet: "type_code b \<in> set basic_type_codes"
  by (cases b) (simp_all add: basic_type_codes_def)

lemma alphabet_type_code:
  assumes "c \<in> set basic_type_codes"
  shows "\<exists>b. type_code b = c"
proof -
  have "set basic_type_codes = type_code ` set [BYTE, BOOLEAN, INT16, UINT16, INT32, UINT32,
      INT64, UINT64, DOUBLE, STRING, OBJECT_PATH, SIGNATURE, VARIANT, UNIX_FD]"
    by (simp add: basic_type_codes_def)
  with assms have "c \<in> type_code ` set [BYTE, BOOLEAN, INT16, UINT16, INT32, UINT32,
      INT64, UINT64, DOUBLE, STRING, OBJECT_PATH, SIGNATURE, VARIANT, UNIX_FD]"
    by simp
  then show ?thesis by (elim imageE) (rule exI, rule sym)
qed

lemma render_Nil [simp]: "render [] = []"
  by (simp add: render_def)

lemma render_Cons [simp]: "render (t # ts) = render1 t @ render ts"
  by (simp add: render_def)

lemma render_append [simp]: "render (ts @ us) = render ts @ render us"
  by (simp add: render_def)

lemma render1_simps' [simp]:
  "render1 (Struct ts) = DBUS_STRUCT_BEGIN_CHAR # render ts @ [DBUS_STRUCT_END_CHAR]"
  "render1 (DictEntry ts) = DBUS_DICT_ENTRY_BEGIN_CHAR # render ts @ [DBUS_DICT_ENTRY_END_CHAR]"
  by (simp_all add: render_def)

declare render1.simps(3,4) [simp del]

lemma render1_not_Nil [simp]: "render1 t \<noteq> []"
  by (cases t) simp_all

lemma render_Nil_iff [simp]: "render ts = [] \<longleftrightarrow> ts = []"
  by (cases ts) simp_all

lemma NUL_notin_render1: "NUL \<notin> set (render1 t)"
  by (induction t) (auto simp: type_code_plain render_def)

lemma NUL_notin_render: "NUL \<notin> set (render ts)"
  by (auto simp: render_def NUL_notin_render1)

text \<open>One character of the scan.\<close>

lemma peek_append_length [simp]: "peek (pre @ c # rest) (length pre) = c"
  by (simp add: peek_def)

lemma scan_char:
  assumes "length pre = e + 1" "c \<noteq> NUL" "0 < d"
  shows "get_one_full_type_scan (pre @ c # rest) opn cls e d =
         get_one_full_type_scan (pre @ c # rest) opn cls (e + 1)
           (if c = opn then d + 1 else if c = cls then d - 1 else d)"
proof -
  have "peek (pre @ c # rest) (e + 1) = c"
    using assms(1) peek_append_length[of pre c rest] by simp
  then show ?thesis using assms scan_step[of "pre @ c # rest" e d opn cls] by simp
qed

lemma scan_render_list:
  assumes elems: "\<And>t pre rest e d. t \<in> set ts \<Longrightarrow> length pre = e + 1 \<Longrightarrow> 0 < d \<Longrightarrow>
     get_one_full_type_scan (pre @ render1 t @ rest) opn cls e d =
     get_one_full_type_scan (pre @ render1 t @ rest) opn cls (e + length (render1 t)) d"
  shows "length pre = e + 1 \<Longrightarrow> 0 < d \<Longrightarrow>
     get_one_full_type_scan (pre @ render ts @ rest) opn cls e d =
     get_one_full_type_scan (pre @ render ts @ rest) opn cls (e + length (render ts)) d"
  using elems
proof (induction ts arbitrary: pre e)
  case Nil
  then show ?case by simp
next
  case (Cons t ts)
  have "get_one_full_type_scan (pre @ render1 t @ render ts @ rest) opn cls e d =
        get_one_full_type_scan (pre @ render1 t @ render ts @ rest) opn cls (e + length (render1 t)) d"
    using Cons.prems(1,2) by (intro Cons.prems(3)) simp_all
  also have "\<dots> = get_one_full_type_scan ((pre @ render1 t) @ render ts @ rest) opn cls
      (e + length (render1 t)) d"
    by simp
  also have "\<dots> = get_one_full_type_scan ((pre @ render1 t) @ render ts @ rest) opn cls
      (e + length (render1 t) + length (render ts)) d"
    using Cons.prems(1,2) by (intro Cons.IH Cons.prems(3)) simp_all
  finally show ?case by (simp add: add.assoc)
qed

lemma scan_bracketed:
  assumes bp: "bracket_pair opn cls" and bp': "bracket_pair o' c'"
    and len: "length pre = e + 1" and d: "0 < d"
    and elems: "\<And>t pre rest e d. t \<in> set ts \<Longrightarrow> length pre = e + 1 \<Longrightarrow> 0 < d \<Longrightarrow>
     get_one_full_type_scan (pre @ render1 t @ rest) opn cls e d =
     get_one_full_type_scan (pre @ render1 t @ rest) opn cls (e + length (render1 t)) d"
  shows "get_one_full_type_scan (pre @ (o' # render ts @ [c']) @ rest) opn cls e d =
         get_one_full_type_scan (pre @ (o' # render ts @ [c']) @ rest) opn cls
           (e + length (o' # render ts @ [c'])) d"
proof -
  let ?buf = "pre @ (o' # render ts @ [c']) @ rest"
  define d1 where "d1 = (if o' = opn then d + 1 else d)"
  have d1: "0 < d1" using d by (simp add: d1_def)
  have nz: "o' \<noteq> NUL" "c' \<noteq> NUL" using bp' by (auto simp: bracket_pair_def)
  have up1: "(if o' = opn then d + 1 else if o' = cls then d - 1 else d) = d1"
    using bp bp' by (auto simp: bracket_pair_def d1_def)
  have up2: "(if c' = opn then d1 + 1 else if c' = cls then d1 - 1 else d1) = d"
    using bp bp' by (auto simp: bracket_pair_def d1_def)
  have "get_one_full_type_scan ?buf opn cls e d = get_one_full_type_scan ?buf opn cls (e + 1) d1"
    using scan_char[OF len nz(1) d, of "render ts @ [c'] @ rest" opn cls] up1 by simp
  also have "\<dots> = get_one_full_type_scan ((pre @ [o']) @ render ts @ (c' # rest)) opn cls (e + 1) d1"
    by simp
  also have "\<dots> = get_one_full_type_scan ((pre @ [o']) @ render ts @ (c' # rest)) opn cls
      (e + 1 + length (render ts)) d1"
    using len d1 elems by (intro scan_render_list) simp_all
  also have "\<dots> = get_one_full_type_scan ((pre @ o' # render ts) @ c' # rest) opn cls
      (e + 1 + length (render ts)) d1"
    by simp
  also have "\<dots> = get_one_full_type_scan ((pre @ o' # render ts) @ c' # rest) opn cls
      (e + 1 + length (render ts) + 1) d"
    using scan_char[of "pre @ o' # render ts" "e + 1 + length (render ts)" c' d1 rest opn cls]
      len nz(2) d1 up2 by simp
  finally show ?thesis by (simp add: add.assoc)
qed

lemma scan_render1:
  "bracket_pair opn cls \<Longrightarrow> length pre = e + 1 \<Longrightarrow> 0 < d \<Longrightarrow>
   get_one_full_type_scan (pre @ render1 t @ rest) opn cls e d =
   get_one_full_type_scan (pre @ render1 t @ rest) opn cls (e + length (render1 t)) d"
proof (induction t arbitrary: pre rest e d)
  case (Basic b)
  then show ?case
    using scan_char[of pre e "type_code b" d rest opn cls]
    by (auto simp: bracket_pair_def type_code_plain)
next
  case (Array t)
  have "get_one_full_type_scan (pre @ CHR ''a'' # render1 t @ rest) opn cls e d =
        get_one_full_type_scan (pre @ CHR ''a'' # render1 t @ rest) opn cls (e + 1) d"
    using Array.prems scan_char[of pre e "CHR ''a''" d "render1 t @ rest" opn cls]
    by (auto simp: bracket_pair_def)
  also have "\<dots> = get_one_full_type_scan ((pre @ ''a'') @ render1 t @ rest) opn cls (e + 1) d"
    by simp
  also have "\<dots> = get_one_full_type_scan ((pre @ ''a'') @ render1 t @ rest) opn cls (e + 1 + length (render1 t)) d"
    using Array.prems by (intro Array.IH) simp_all
  finally show ?case by simp
next
  case (Struct ts)
  have "bracket_pair DBUS_STRUCT_BEGIN_CHAR DBUS_STRUCT_END_CHAR"
    by (simp add: bracket_pair_def)
  from scan_bracketed[OF Struct.prems(1) this Struct.prems(2,3), of ts rest]
  show ?case using Struct.IH Struct.prems(1) by simp
next
  case (DictEntry ts)
  have "bracket_pair DBUS_DICT_ENTRY_BEGIN_CHAR DBUS_DICT_ENTRY_END_CHAR"
    by (simp add: bracket_pair_def)
  from scan_bracketed[OF DictEntry.prems(1) this DictEntry.prems(2,3), of ts rest]
  show ?case using DictEntry.IH DictEntry.prems(1) by simp
qed

lemma scan_render:
  "bracket_pair opn cls \<Longrightarrow> length pre = e + 1 \<Longrightarrow> 0 < d \<Longrightarrow>
   get_one_full_type_scan (pre @ render ts @ rest) opn cls e d =
   get_one_full_type_scan (pre @ render ts @ rest) opn cls (e + length (render ts)) d"
  by (rule scan_render_list) (simp_all add: scan_render1)

text \<open>On the rendering of a full type, \<open>get_one_full_type\<close> returns the pointer past it.\<close>

lemma get_one_full_type_bracketed:
  assumes bp: "bracket_pair opn cls"
  shows "get_one_full_type_scan (pre @ (opn # render ts @ [cls]) @ rest) opn cls (length pre) 1 =
         (length pre + length (render ts) + 2, 0)"
proof -
  let ?buf = "pre @ (opn # render ts @ [cls]) @ rest"
  have nz: "cls \<noteq> NUL" "cls \<noteq> opn" using bp by (auto simp: bracket_pair_def)
  have "get_one_full_type_scan ?buf opn cls (length pre) 1 =
        get_one_full_type_scan ((pre @ [opn]) @ render ts @ (cls # rest)) opn cls (length pre) 1"
    by simp
  also have "\<dots> = get_one_full_type_scan ((pre @ [opn]) @ render ts @ (cls # rest)) opn cls
      (length pre + length (render ts)) 1"
    using bp by (intro scan_render) simp_all
  also have "\<dots> = get_one_full_type_scan ((pre @ opn # render ts) @ cls # rest) opn cls
      (length pre + length (render ts)) 1"
    by simp
  also have "\<dots> = get_one_full_type_scan ((pre @ opn # render ts) @ cls # rest) opn cls
      (length pre + length (render ts) + 1) 0"
    using scan_char[of "pre @ opn # render ts" "length pre + length (render ts)" cls 1 rest opn cls] nz
    by simp
  also have "\<dots> = (length pre + length (render ts) + 2, 0)"
    by (subst scan_stop) simp_all
  finally show ?thesis .
qed

lemma get_one_full_type_render1:
  "get_one_full_type (pre @ render1 t @ rest) (length pre) = Some (length pre + length (render1 t))"
proof (induction t arbitrary: pre rest)
  case (Basic b)
  show ?case
    by (subst get_one_full_type.simps) (simp add: type_code_plain)
next
  case (Array t)
  have "get_one_full_type (pre @ render1 (Array t) @ rest) (length pre) =
        get_one_full_type ((pre @ ''a'') @ render1 t @ rest) (length pre + 1)"
    by (subst get_one_full_type.simps) simp
  also have "\<dots> = Some (length (pre @ ''a'') + length (render1 t))"
    using Array.IH[of "pre @ ''a''" rest] by simp
  finally show ?case by simp
next
  case (Struct ts)
  have "bracket_pair DBUS_STRUCT_BEGIN_CHAR DBUS_STRUCT_END_CHAR"
    by (simp add: bracket_pair_def)
  from get_one_full_type_bracketed[OF this, of pre ts rest]
  show ?case by (subst get_one_full_type.simps) simp
next
  case (DictEntry ts)
  have "bracket_pair DBUS_DICT_ENTRY_BEGIN_CHAR DBUS_DICT_ENTRY_END_CHAR"
    by (simp add: bracket_pair_def)
  from get_one_full_type_bracketed[OF this, of pre ts rest]
  show ?case by (subst get_one_full_type.simps) simp
qed

text \<open>The branches of one iteration of \<open>_check_signature\<close>.\<close>

lemma check_signature_buf_end:
  "peek buf ptr = NUL \<Longrightarrow>
   check_signature_buf buf start ptr ad sd = (\<not> 255 < ptr - start, buf)"
  by (subst check_signature_buf.simps) simp

lemma check_signature_buf_basic:
  assumes "peek buf ptr \<noteq> NUL" "get_one_full_type buf ptr = Some (ptr + 1)"
  shows "check_signature_buf buf start ptr ad sd =
     (if peek buf ptr \<notin> set basic_type_codes then (False, buf)
      else check_signature_buf buf start (ptr + 1) ad sd)"
  using assms by (subst check_signature_buf.simps) simp

lemma get_one_full_type_array:
  "peek buf ptr = DBUS_TYPE_ARRAY \<Longrightarrow> get_one_full_type buf ptr = get_one_full_type buf (ptr + 1)"
  by (subst get_one_full_type.simps) simp

lemma check_signature_buf_array:
  assumes "peek buf ptr = DBUS_TYPE_ARRAY" "get_one_full_type buf ptr = Some e"
  shows "check_signature_buf buf start ptr ad sd =
     (if 32 \<le> ad then (False, buf)
      else case check_signature_buf (buf[e := NUL]) (ptr + 1) (ptr + 1) (ad + 1) sd of
             (ok, buf') \<Rightarrow>
               if \<not> ok then (False, buf')
               else check_signature_buf (buf'[e := peek buf e]) start e ad sd)"
proof -
  have "ptr + 1 < e"
    using assms get_one_full_type_array[of buf ptr] get_one_full_type_gt[of buf "ptr + 1" e] by simp
  then have "e - ptr \<noteq> 1" by simp
  then show ?thesis
    using assms by (subst check_signature_buf.simps) simp
qed

lemma scan_closed_far:
  assumes "get_one_full_type_scan buf opn cls e 1 = (e', 0)"
  shows "e + 2 \<le> e'"
proof (cases "peek buf (e + 1) \<noteq> NUL")
  case True
  then have "get_one_full_type_scan buf opn cls (e + 1)
      (if peek buf (e + 1) = opn then 1 + 1 else if peek buf (e + 1) = cls then 1 - 1 else 1) = (e', 0)"
    using assms scan_step[of buf e 1 opn cls] by simp
  from get_one_full_type_scan_mono[OF this] show ?thesis by simp
next
  case False
  then show ?thesis using assms scan_stop[of buf e 1 opn cls] by simp
qed

lemma get_one_full_type_bracket_far:
  assumes "peek buf ptr = DBUS_STRUCT_BEGIN_CHAR \<or> peek buf ptr = DBUS_DICT_ENTRY_BEGIN_CHAR"
    and "get_one_full_type buf ptr = Some e"
  shows "ptr + 2 \<le> e"
proof -
  have "\<exists>cls. get_one_full_type buf ptr =
       (case get_one_full_type_scan buf (peek buf ptr) cls ptr 1 of
          (e, depth) \<Rightarrow> if depth \<noteq> 0 then None else Some e)"
    using assms(1) by (subst get_one_full_type.simps) auto
  then obtain cls where eq: "get_one_full_type buf ptr =
       (case get_one_full_type_scan buf (peek buf ptr) cls ptr 1 of
          (e, depth) \<Rightarrow> if depth \<noteq> 0 then None else Some e)"
    by blast
  obtain e1 d1 where sc: "get_one_full_type_scan buf (peek buf ptr) cls ptr 1 = (e1, d1)"
    by (cases "get_one_full_type_scan buf (peek buf ptr) cls ptr 1")
  with eq assms(2) have "d1 = 0" "e1 = e"
    by (auto split: if_splits)
  with sc show ?thesis using scan_closed_far by blast
qed

lemma check_signature_buf_bracket:
  assumes "peek buf ptr = DBUS_STRUCT_BEGIN_CHAR \<or> peek buf ptr = DBUS_DICT_ENTRY_BEGIN_CHAR"
    and "get_one_full_type buf ptr = Some e"
  shows "check_signature_buf buf start ptr ad sd =
     (if 32 \<le> sd then (False, buf)
      else case check_signature_buf (buf[e - 1 := NUL]) (ptr + 1) (ptr + 1) ad (sd + 1) of
             (ok, buf') \<Rightarrow>
               if \<not> ok then (False, buf')
               else if (peek (buf'[e - 1 := peek buf (e - 1)]) ptr = DBUS_STRUCT_BEGIN_CHAR \<and>
                          peek buf (e - 1) \<noteq> DBUS_STRUCT_END_CHAR) \<or>
                       (peek (buf'[e - 1 := peek buf (e - 1)]) ptr = DBUS_DICT_ENTRY_BEGIN_CHAR \<and>
                          peek buf (e - 1) \<noteq> DBUS_DICT_ENTRY_END_CHAR)
               then (False, buf'[e - 1 := peek buf (e - 1)])
               else check_signature_buf (buf'[e - 1 := peek buf (e - 1)]) start e ad sd)"
proof -
  have "e - ptr \<noteq> 1"
    using get_one_full_type_bracket_far[OF assms] by simp
  moreover have "peek buf ptr \<noteq> NUL" "peek buf ptr \<noteq> DBUS_TYPE_ARRAY"
    using assms(1) by auto
  ultimately show ?thesis
    using assms by (subst check_signature_buf.simps) (simp del: One_nat_def)
qed

text \<open>The depth test of the validator, started with the counters \<open>ad\<close> and \<open>sd\<close>.\<close>

definition depths_ok :: "nat \<Rightarrow> nat \<Rightarrow> full_type list \<Rightarrow> bool" where
  "depths_ok ad sd ts \<longleftrightarrow> (\<forall>t \<in> set ts. ad + array_depth t \<le> 32 \<and> sd + struct_depth t \<le> 32)"

lemma add_fold_max_le:
  "(a::nat) + fold max xs m \<le> n \<longleftrightarrow> a + m \<le> n \<and> (\<forall>x \<in> set xs. a + x \<le> n)"
  by (induction xs arbitrary: m) auto

lemma depths_ok_Nil [simp]: "depths_ok ad sd []"
  by (simp add: depths_ok_def)

lemma depths_ok_Cons:
  "depths_ok ad sd (t # ts) \<longleftrightarrow> depths_ok ad sd [t] \<and> depths_ok ad sd ts"
  by (auto simp: depths_ok_def)

lemma depths_ok_Basic [simp]: "depths_ok ad sd [Basic b] \<longleftrightarrow> ad \<le> 32 \<and> sd \<le> 32"
  by (simp add: depths_ok_def)

lemma depths_ok_Array:
  "sd \<le> 32 \<Longrightarrow> depths_ok ad sd [Array t] \<longleftrightarrow> \<not> 32 \<le> ad \<and> depths_ok (ad + 1) sd [t]"
  by (auto simp: depths_ok_def)

lemma depths_ok_Struct:
  "ad \<le> 32 \<Longrightarrow> depths_ok ad sd [Struct ts] \<longleftrightarrow> \<not> 32 \<le> sd \<and> depths_ok ad (sd + 1) ts"
  by (auto simp: depths_ok_def add_fold_max_le)

lemma depths_ok_DictEntry:
  "ad \<le> 32 \<Longrightarrow> depths_ok ad sd [DictEntry ts] \<longleftrightarrow> \<not> 32 \<le> sd \<and> depths_ok ad (sd + 1) ts"
  by (auto simp: depths_ok_def add_fold_max_le)

lemma list_update_at_length: "(xs @ x # ys)[length xs := y] = xs @ y # ys"
  by simp

text \<open>
  On the rendering of a list of full types, followed by a terminator, the validator
  accepts exactly when the depths and the length are within the limits, and then the
  buffer is returned unchanged.
\<close>

lemma check_signature_buf_render:
  "start \<le> length pre \<Longrightarrow> ad \<le> 32 \<Longrightarrow> sd \<le> 32 \<Longrightarrow>
   (depths_ok ad sd ts \<and> length pre + length (render ts) - start \<le> 255 \<longrightarrow>
      check_signature_buf (pre @ render ts @ NUL # post) start (length pre) ad sd =
        (True, pre @ render ts @ NUL # post)) \<and>
   (\<not> (depths_ok ad sd ts \<and> length pre + length (render ts) - start \<le> 255) \<longrightarrow>
      \<not> fst (check_signature_buf (pre @ render ts @ NUL # post) start (length pre) ad sd))"
proof (induction "length (render ts)" arbitrary: ts pre post start ad sd rule: less_induct)
  case less
  let ?B = "pre @ render ts @ NUL # post"
  let ?p = "length pre"
  show ?case
  proof (cases ts)
    case Nil
    then show ?thesis
      using check_signature_buf_end[of ?B ?p start ad sd] by simp
  next
    case (Cons t rest)
    define R where "R = render rest @ NUL # post"
    define e where "e = ?p + length (render1 t)"
    have B: "?B = pre @ render1 t @ R" by (simp add: Cons R_def)
    have B': "?B = (pre @ render1 t) @ render rest @ NUL # post" by (simp add: Cons)
    have e': "e = length (pre @ render1 t)" by (simp add: e_def)
    have gof: "get_one_full_type ?B ?p = Some e"
      unfolding B e_def by (rule get_one_full_type_render1)
    obtain r0 R' where R: "R = r0 # R'"
      by (cases R) (simp_all add: R_def)
    have Be: "?B = (pre @ render1 t) @ r0 # R'" by (simp add: B R)
    have pe: "peek ?B e = r0"
      unfolding Be e' by (rule peek_append_length)
    have cont: "(depths_ok ad sd rest \<and> e + length (render rest) - start \<le> 255 \<longrightarrow>
        check_signature_buf ?B start e ad sd = (True, ?B)) \<and>
      (\<not> (depths_ok ad sd rest \<and> e + length (render rest) - start \<le> 255) \<longrightarrow>
        \<not> fst (check_signature_buf ?B start e ad sd))"
      unfolding B' e'
      using less.prems by (intro less.hyps) (simp_all add: Cons)
    have tot: "length pre + length (render ts) = e + length (render rest)"
      by (simp add: Cons e_def)
    have dts: "depths_ok ad sd ts \<longleftrightarrow> depths_ok ad sd [t] \<and> depths_ok ad sd rest"
      unfolding Cons by (rule depths_ok_Cons)
    have bracket: ?thesis
      if bp: "bracket_pair opn cls" and rt: "render1 t = opn # render ts' @ [cls]"
        and dk: "depths_ok ad sd [t] \<longleftrightarrow> \<not> 32 \<le> sd \<and> depths_ok ad (sd + 1) ts'"
      for opn cls ts'
    proof -
      have pk: "peek ?B ?p = opn"
        unfolding B rt by simp
      have op: "opn = DBUS_STRUCT_BEGIN_CHAR \<or> opn = DBUS_DICT_ENTRY_BEGIN_CHAR"
        using bp by (auto simp: bracket_pair_def)
      have e1: "e - 1 = length (pre @ opn # render ts')"
        by (simp add: e_def rt)
      have Bc: "?B = (pre @ opn # render ts') @ cls # R"
        by (simp add: B rt)
      have pe1: "peek ?B (e - 1) = cls"
        unfolding Bc e1 by (rule peek_append_length)
      have shape: "(pre @ opn # render ts') @ NUL # R = (pre @ [opn]) @ render ts' @ NUL # R"
        by simp
      have upd: "?B[e - 1 := NUL] = (pre @ [opn]) @ render ts' @ NUL # R"
        unfolding Bc e1 shape[symmetric] by (rule list_update_at_length)
      have rst: "((pre @ [opn]) @ render ts' @ NUL # R)[e - 1 := cls] = ?B"
        unfolding Bc e1 shape[symmetric] by (rule list_update_at_length)
      have nomis: "\<not> ((peek ?B ?p = DBUS_STRUCT_BEGIN_CHAR \<and> cls \<noteq> DBUS_STRUCT_END_CHAR) \<or>
          (peek ?B ?p = DBUS_DICT_ENTRY_BEGIN_CHAR \<and> cls \<noteq> DBUS_DICT_ENTRY_END_CHAR))"
        unfolding pk using bp by (auto simp: bracket_pair_def)
      have eq: "check_signature_buf ?B start ?p ad sd =
         (if 32 \<le> sd then (False, ?B)
          else case check_signature_buf ((pre @ [opn]) @ render ts' @ NUL # R) (?p + 1) (?p + 1) ad (sd + 1) of
             (ok, buf') \<Rightarrow>
               if \<not> ok then (False, buf')
               else if (peek (buf'[e - 1 := cls]) ?p = DBUS_STRUCT_BEGIN_CHAR \<and>
                          cls \<noteq> DBUS_STRUCT_END_CHAR) \<or>
                       (peek (buf'[e - 1 := cls]) ?p = DBUS_DICT_ENTRY_BEGIN_CHAR \<and>
                          cls \<noteq> DBUS_DICT_ENTRY_END_CHAR)
               then (False, buf'[e - 1 := cls])
               else check_signature_buf (buf'[e - 1 := cls]) start e ad sd)"
        using check_signature_buf_bracket[OF _ gof, of start ad sd] pk op
        by (simp only: upd pe1)
      show ?thesis
      proof (cases "32 \<le> sd")
        case True
        then show ?thesis
          using eq less.prems unfolding dts dk by simp
      next
        case False
        have inner: "(depths_ok ad (sd + 1) ts' \<and> length (render ts') \<le> 255 \<longrightarrow>
            check_signature_buf ((pre @ [opn]) @ render ts' @ NUL # R) (?p + 1) (?p + 1) ad (sd + 1) =
              (True, (pre @ [opn]) @ render ts' @ NUL # R)) \<and>
          (\<not> (depths_ok ad (sd + 1) ts' \<and> length (render ts') \<le> 255) \<longrightarrow>
            \<not> fst (check_signature_buf ((pre @ [opn]) @ render ts' @ NUL # R) (?p + 1) (?p + 1) ad (sd + 1)))"
          using less.hyps[of ts' "?p + 1" "pre @ [opn]" ad "sd + 1" R] less.prems False
          by (simp add: Cons rt)
        have len: "length (render ts') + 2 + start \<le> e + length (render rest)"
          using less.prems(1) by (simp add: e_def rt)
        show ?thesis
        proof (cases "depths_ok ad (sd + 1) ts' \<and> length (render ts') \<le> 255")
          case True
          then have in_ok: "check_signature_buf ((pre @ [opn]) @ render ts' @ NUL # R) (?p + 1) (?p + 1) ad (sd + 1) =
              (True, (pre @ [opn]) @ render ts' @ NUL # R)"
            using inner by blast
          have "check_signature_buf ?B start ?p ad sd = check_signature_buf ?B start e ad sd"
            unfolding eq in_ok using False nomis
            by (simp only: rst split_conv if_False not_True_eq_False)
          then show ?thesis
            using cont less.prems True False len unfolding tot dts dk
            by simp
        next
          case bad: False
          then have "\<not> fst (check_signature_buf ?B start ?p ad sd)"
            using eq False inner by (simp split: prod.splits)
          moreover have "\<not> (depths_ok ad sd ts \<and> length pre + length (render ts) - start \<le> 255)"
            using bad len less.prems unfolding tot dts dk
            by auto
          ultimately show ?thesis by blast
        qed
      qed
    qed
    show ?thesis
    proof (cases t)
      case (Basic b)
      have pk: "peek ?B ?p = type_code b"
        unfolding B Basic by simp
      have "check_signature_buf ?B start ?p ad sd = check_signature_buf ?B start e ad sd"
        using check_signature_buf_basic[of ?B ?p start ad sd] gof pk type_code_alphabet[of b]
        by (simp add: e_def Basic)
      then show ?thesis
        using cont less.prems unfolding tot dts Basic by simp
    next
      case (Array t')
      have pk: "peek ?B ?p = DBUS_TYPE_ARRAY"
        unfolding B Array by simp
      have shape: "(pre @ render1 t) @ NUL # R' = (pre @ ''a'') @ render [t'] @ NUL # R'"
        by (simp add: Array)
      have upd: "?B[e := NUL] = (pre @ ''a'') @ render [t'] @ NUL # R'"
        unfolding Be e' shape[symmetric] by (rule list_update_at_length)
      have rst: "((pre @ ''a'') @ render [t'] @ NUL # R')[e := r0] = ?B"
        unfolding Be e' shape[symmetric] by (rule list_update_at_length)
      have eq: "check_signature_buf ?B start ?p ad sd =
         (if 32 \<le> ad then (False, ?B)
          else case check_signature_buf ((pre @ ''a'') @ render [t'] @ NUL # R') (?p + 1) (?p + 1) (ad + 1) sd of
             (ok, buf') \<Rightarrow>
               if \<not> ok then (False, buf')
               else check_signature_buf (buf'[e := r0]) start e ad sd)"
        using check_signature_buf_array[OF pk gof, of start ad sd] by (simp only: upd pe)
      show ?thesis
      proof (cases "32 \<le> ad")
        case True
        then show ?thesis
          using eq less.prems unfolding dts Array by (simp add: depths_ok_Array)
      next
        case False
        have inner: "(depths_ok (ad + 1) sd [t'] \<and> length (render [t']) \<le> 255 \<longrightarrow>
            check_signature_buf ((pre @ ''a'') @ render [t'] @ NUL # R') (?p + 1) (?p + 1) (ad + 1) sd =
              (True, (pre @ ''a'') @ render [t'] @ NUL # R')) \<and>
          (\<not> (depths_ok (ad + 1) sd [t'] \<and> length (render [t']) \<le> 255) \<longrightarrow>
            \<not> fst (check_signature_buf ((pre @ ''a'') @ render [t'] @ NUL # R') (?p + 1) (?p + 1) (ad + 1) sd))"
          using less.hyps[of "[t']" "?p + 1" "pre @ ''a''" "ad + 1" sd R'] less.prems False
          by (simp add: Cons Array)
        have len: "length (render [t']) + 1 + start \<le> e + length (render rest)"
          using less.prems(1) by (simp add: e_def Array)
        show ?thesis
        proof (cases "depths_ok (ad + 1) sd [t'] \<and> length (render [t']) \<le> 255")
          case True
          then have "check_signature_buf ?B start ?p ad sd = check_signature_buf ?B start e ad sd"
            using eq False inner rst by simp
          then show ?thesis
            using cont less.prems True False len unfolding tot dts Array
            by (simp add: depths_ok_Array)
        next
          case bad: False
          then have "\<not> fst (check_signature_buf ?B start ?p ad sd)"
            using eq False inner by (simp split: prod.splits)
          moreover have "\<not> (depths_ok ad sd ts \<and> length pre + length (render ts) - start \<le> 255)"
            using bad len less.prems unfolding tot dts Array
            by (auto simp: depths_ok_Array)
          ultimately show ?thesis by blast
        qed
      qed
    next
      case (Struct ts')
      have "bracket_pair DBUS_STRUCT_BEGIN_CHAR DBUS_STRUCT_END_CHAR"
        by (simp add: bracket_pair_def)
      moreover have "render1 t = DBUS_STRUCT_BEGIN_CHAR # render ts' @ [DBUS_STRUCT_END_CHAR]"
        by (simp add: Struct)
      moreover have "depths_ok ad sd [t] \<longleftrightarrow> \<not> 32 \<le> sd \<and> depths_ok ad (sd + 1) ts'"
        unfolding Struct using less.prems by (intro depths_ok_Struct)
      ultimately show ?thesis by (rule bracket)
    next
      case (DictEntry ts')
      have "bracket_pair DBUS_DICT_ENTRY_BEGIN_CHAR DBUS_DICT_ENTRY_END_CHAR"
        by (simp add: bracket_pair_def)
      moreover have "render1 t = DBUS_DICT_ENTRY_BEGIN_CHAR # render ts' @ [DBUS_DICT_ENTRY_END_CHAR]"
        by (simp add: DictEntry)
      moreover have "depths_ok ad sd [t] \<longleftrightarrow> \<not> 32 \<le> sd \<and> depths_ok ad (sd + 1) ts'"
        unfolding DictEntry using less.prems by (intro depths_ok_DictEntry)
      ultimately show ?thesis by (rule bracket)
    qed
  qed
qed

lemma check_signature_render:
  "check_signature (render ts) \<longleftrightarrow> depths_ok 0 0 ts \<and> length (render ts) \<le> 255"
  using check_signature_buf_render[of 0 "[]" 0 0 ts "[]"]
  by (auto simp: check_signature_def)

lemma check_signature_buffer_render:
  "check_signature (render ts) \<Longrightarrow> check_signature_buffer (render ts) = render ts @ [NUL]"
  using check_signature_buf_render[of 0 "[]" 0 0 ts "[]"]
  by (auto simp: check_signature_def check_signature_buffer_def)

text \<open>The characters that \<open>get_one_full_type\<close> passes over are not terminators.\<close>

lemma scan_nonNUL:
  "get_one_full_type_scan buf opn cls e d = (e', d') \<Longrightarrow> e < i \<Longrightarrow> i < e' \<Longrightarrow> peek buf i \<noteq> NUL"
proof (induction buf opn cls e d rule: get_one_full_type_scan.induct)
  case (1 buf opn cls e depth)
  show ?case
  proof (cases "peek buf (e + 1) \<noteq> NUL \<and> depth > 0")
    case True
    then have nxt: "get_one_full_type_scan buf opn cls (e + 1)
       (if peek buf (e + 1) = opn then depth + 1 else if peek buf (e + 1) = cls then depth - 1 else depth)
       = (e', d')"
      using "1.prems"(1) scan_step[of buf e depth opn cls] by simp
    show ?thesis
    proof (cases "i = e + 1")
      case True
      then show ?thesis using \<open>peek buf (e + 1) \<noteq> NUL \<and> depth > 0\<close> by simp
    next
      case False
      then have "e + 1 < i" using "1.prems"(2) by simp
      from "1.IH"[OF True nxt this "1.prems"(3)] show ?thesis .
    qed
  next
    case False
    then have "e' = e + 1" using "1.prems"(1) scan_stop[of buf e depth opn cls] by auto
    then show ?thesis using "1.prems" by simp
  qed
qed

lemma get_one_full_type_nonNUL:
  "get_one_full_type buf p = Some e \<Longrightarrow> p \<le> i \<Longrightarrow> i < e \<Longrightarrow> peek buf i \<noteq> NUL"
proof (induction buf p rule: get_one_full_type.induct)
  case (1 buf p)
  show ?case
  proof (cases "peek buf p = DBUS_TYPE_ARRAY")
    case True
    then have nxt: "get_one_full_type buf (p + 1) = Some e"
      using "1.prems"(1) get_one_full_type_array[of buf p] by simp
    show ?thesis
    proof (cases "i = p")
      case True
      then show ?thesis using \<open>peek buf p = DBUS_TYPE_ARRAY\<close> by simp
    next
      case False
      then have "p + 1 \<le> i" using "1.prems"(2) by simp
      from "1.IH"[OF True nxt this "1.prems"(3)] show ?thesis .
    qed
  next
    case na: False
    show ?thesis
    proof (cases "peek buf p = DBUS_STRUCT_BEGIN_CHAR \<or> peek buf p = DBUS_DICT_ENTRY_BEGIN_CHAR")
      case True
      have "\<exists>cls. get_one_full_type buf p =
         (case get_one_full_type_scan buf (peek buf p) cls p 1 of
            (e, depth) \<Rightarrow> if depth \<noteq> 0 then None else Some e)"
        using True by (subst get_one_full_type.simps) auto
      then obtain cls where eq: "get_one_full_type buf p =
         (case get_one_full_type_scan buf (peek buf p) cls p 1 of
            (e, depth) \<Rightarrow> if depth \<noteq> 0 then None else Some e)"
        by blast
      obtain e1 d1 where sc: "get_one_full_type_scan buf (peek buf p) cls p 1 = (e1, d1)"
        by (cases "get_one_full_type_scan buf (peek buf p) cls p 1")
      with eq "1.prems"(1) have "e1 = e" by (auto split: if_splits)
      show ?thesis
      proof (cases "i = p")
        case True
        then show ?thesis using \<open>peek buf p = DBUS_STRUCT_BEGIN_CHAR \<or> peek buf p = DBUS_DICT_ENTRY_BEGIN_CHAR\<close> by auto
      next
        case False
        then have "p < i" using "1.prems"(2) by simp
        from scan_nonNUL[OF sc this] show ?thesis using "1.prems"(3) \<open>e1 = e\<close> by simp
      qed
    next
      case False
      then have "e = p + 1" "peek buf p \<noteq> NUL"
        using na "1.prems"(1) by (subst (asm) get_one_full_type.simps; simp split: if_splits)+
      then show ?thesis using "1.prems" by (cases "i = p") simp_all
    qed
  qed
qed

lemma get_one_full_type_within:
  assumes "get_one_full_type (pre @ s @ NUL # post) (length pre) = Some e"
  shows "length pre < e \<and> e \<le> length pre + length s"
proof -
  have "peek (pre @ s @ NUL # post) (length pre + length s) = NUL"
    using peek_append_length[of "pre @ s" NUL post] by simp
  then have "\<not> length pre + length s < e"
    using get_one_full_type_nonNUL[OF assms, of "length pre + length s"] by auto
  then show ?thesis using get_one_full_type_gt[OF assms] by simp
qed

lemma get_one_full_type_plain:
  assumes "peek buf p \<noteq> NUL" "peek buf p \<noteq> DBUS_TYPE_ARRAY"
    "peek buf p \<noteq> DBUS_STRUCT_BEGIN_CHAR" "peek buf p \<noteq> DBUS_DICT_ENTRY_BEGIN_CHAR"
  shows "get_one_full_type buf p = Some (p + 1)"
  using assms by (subst get_one_full_type.simps) simp

lemma list_ends:
  assumes "2 \<le> length xs"
  shows "xs = hd xs # butlast (tl xs) @ [last xs]"
proof (cases xs)
  case Nil
  with assms show ?thesis by simp
next
  case (Cons x ys)
  with assms have "ys \<noteq> []" by auto
  then show ?thesis using Cons by simp
qed

text \<open>Whatever the validator accepts is the rendering of a list of full types.\<close>

lemma accepted_is_render:
  "NUL \<notin> set s \<Longrightarrow> start \<le> length pre \<Longrightarrow> ad \<le> 32 \<Longrightarrow> sd \<le> 32 \<Longrightarrow>
   fst (check_signature_buf (pre @ s @ NUL # post) start (length pre) ad sd) \<Longrightarrow>
   \<exists>ts. s = render ts"
proof (induction "length s" arbitrary: s pre post start ad sd rule: less_induct)
  case less
  let ?B = "pre @ s @ NUL # post"
  let ?p = "length pre"
  note acc = less.prems(5)
  show ?case
  proof (cases s)
    case Nil
    then have "s = render []" by simp
    then show ?thesis ..
  next
    case (Cons c s')
    have c0: "c \<noteq> NUL" using less.prems(1) Cons by auto
    have pk: "peek ?B ?p = c" by (simp add: Cons)
    have "get_one_full_type ?B ?p \<noteq> None"
    proof
      assume "get_one_full_type ?B ?p = None"
      then have "check_signature_buf ?B start ?p ad sd = (False, ?B)"
        using pk c0 by (subst check_signature_buf.simps) simp
      with acc show False by simp
    qed
    then obtain e where gof: "get_one_full_type ?B ?p = Some e" by blast
    from get_one_full_type_within[OF gof] have eb: "?p < e" "e \<le> ?p + length s" by simp_all
    define s1 where "s1 = take (e - ?p) s"
    define s2 where "s2 = drop (e - ?p) s"
    have s12: "s = s1 @ s2" by (simp add: s1_def s2_def)
    have l1: "length s1 = e - ?p" using eb by (simp add: s1_def)
    have e': "e = length (pre @ s1)" using eb l1 by simp
    have B2: "?B = (pre @ s1) @ s2 @ NUL # post" by (simp add: s12)
    have n2: "NUL \<notin> set s2" "NUL \<notin> set s1" using less.prems(1) s12 by auto
    have hd1: "s1 \<noteq> []" "hd s1 = c" using l1 eb Cons by (auto simp: s1_def)
    have cont: "\<exists>ts. s2 = render ts" if "fst (check_signature_buf ?B start e ad sd)"
    proof -
      have "length s2 < length s" using eb by (simp add: s2_def)
      from less.hyps[OF this n2(1) _ less.prems(3,4), of start "pre @ s1" post] that eb less.prems(2)
      show ?thesis unfolding B2 e' by simp
    qed
    obtain r0 R' where R: "s2 @ NUL # post = r0 # R'"
      by (cases "s2 @ NUL # post") simp_all
    show ?thesis
    proof (cases "c = DBUS_TYPE_ARRAY")
      case True
      have pka: "peek ?B ?p = DBUS_TYPE_ARRAY" using pk True by simp
      have gof1: "get_one_full_type ?B (?p + 1) = Some e"
        using gof get_one_full_type_array[OF pka] by simp
      from get_one_full_type_gt[OF this] have e2: "?p + 1 < e" .
      define m where "m = tl s1"
      have s1m: "s1 = DBUS_TYPE_ARRAY # m" using hd1 True by (cases s1) (simp_all add: m_def)
      have nm: "NUL \<notin> set m" using n2(2) s1m by auto
      have lm: "length m < length s" "m \<noteq> []" using s12 s1m l1 e2 by auto
      have Be: "?B = (pre @ s1) @ r0 # R'" using R by (simp add: s12)
      have pe: "peek ?B e = r0" unfolding Be e' by (rule peek_append_length)
      have shape: "(pre @ s1) @ NUL # R' = (pre @ ''a'') @ m @ NUL # R'" by (simp add: s1m)
      have upd: "?B[e := NUL] = (pre @ ''a'') @ m @ NUL # R'"
        unfolding Be e' shape[symmetric] by (rule list_update_at_length)
      have rst: "((pre @ ''a'') @ m @ NUL # R')[e := r0] = ?B"
        unfolding Be e' shape[symmetric] by (rule list_update_at_length)
      let ?B1 = "(pre @ ''a'') @ m @ NUL # R'"
      have eq: "check_signature_buf ?B start ?p ad sd =
         (if 32 \<le> ad then (False, ?B)
          else case check_signature_buf ?B1 (?p + 1) (?p + 1) (ad + 1) sd of
             (ok, buf') \<Rightarrow>
               if \<not> ok then (False, buf')
               else check_signature_buf (buf'[e := r0]) start e ad sd)"
        using check_signature_buf_array[OF pka gof, of start ad sd] by (simp only: upd pe)
      have ad: "\<not> 32 \<le> ad" using acc eq by (auto split: if_splits)
      have in1: "fst (check_signature_buf ?B1 (?p + 1) (?p + 1) (ad + 1) sd)"
        using acc eq ad by (auto split: prod.splits if_splits)
      from less.hyps[OF lm(1) nm _ _ less.prems(4), of "?p + 1" "pre @ ''a''" "ad + 1" R'] in1 ad
      obtain ts1 where ts1: "m = render ts1" by auto
      have "check_signature_buf ?B1 (?p + 1) (?p + 1) (ad + 1) sd = (True, ?B1)"
        using check_signature_buf_render[of "?p + 1" "pre @ ''a''" "ad + 1" sd ts1 R'] in1 ad
          less.prems(4) unfolding ts1 by auto
      then have "check_signature_buf ?B start ?p ad sd = check_signature_buf ?B start e ad sd"
        unfolding eq using ad by (simp only: rst split_conv if_False not_True_eq_False)
      with acc cont obtain ts2 where ts2: "s2 = render ts2" by auto
      obtain t1 r1 where tr: "ts1 = t1 # r1" using lm(2) ts1 by (cases ts1) auto
      have beq: "(pre @ ''a'') @ render1 t1 @ (render r1 @ s2 @ NUL # post) = ?B"
        by (simp add: s12 s1m ts1 tr)
      have "get_one_full_type ?B (length (pre @ ''a'')) = Some (length (pre @ ''a'') + length (render1 t1))"
        using get_one_full_type_render1[of "pre @ ''a''" t1 "render r1 @ s2 @ NUL # post"]
        unfolding beq .
      then have "e = ?p + 1 + length (render1 t1)" using gof1 by simp
      moreover have "e = ?p + 1 + length (render1 t1) + length (render r1)"
        using e' by (simp add: s1m ts1 tr)
      ultimately have "r1 = []" by simp
      then have "s = render (Array t1 # ts2)" by (simp add: s12 s1m ts1 tr ts2)
      then show ?thesis ..
    next
      case na: False
      show ?thesis
      proof (cases "c = DBUS_STRUCT_BEGIN_CHAR \<or> c = DBUS_DICT_ENTRY_BEGIN_CHAR")
        case True
        have pkb: "peek ?B ?p = DBUS_STRUCT_BEGIN_CHAR \<or> peek ?B ?p = DBUS_DICT_ENTRY_BEGIN_CHAR"
          using pk True by simp
        from get_one_full_type_bracket_far[OF pkb gof] have e2: "?p + 2 \<le> e" .
        define m where "m = butlast (tl s1)"
        define k where "k = last s1"
        have s1m: "s1 = c # m @ [k]"
          using list_ends[of s1] l1 e2 hd1 by (simp add: m_def k_def)
        have nm: "NUL \<notin> set m" using n2(2) s1m by auto
        have lm: "length m < length s" using s12 s1m by simp
        have e1: "e - 1 = length (pre @ c # m)" using e' by (simp add: s1m)
        have Bc: "?B = (pre @ c # m) @ k # (s2 @ NUL # post)" by (simp add: s12 s1m)
        have pe1: "peek ?B (e - 1) = k" unfolding Bc e1 by (rule peek_append_length)
        let ?R = "s2 @ NUL # post"
        let ?B1 = "(pre @ [c]) @ m @ NUL # ?R"
        have shape: "(pre @ c # m) @ NUL # ?R = ?B1" by simp
        have upd: "?B[e - 1 := NUL] = ?B1"
          unfolding Bc e1 shape[symmetric] by (rule list_update_at_length)
        have rst: "?B1[e - 1 := k] = ?B"
          unfolding Bc e1 shape[symmetric] by (rule list_update_at_length)
        have eq: "check_signature_buf ?B start ?p ad sd =
           (if 32 \<le> sd then (False, ?B)
            else case check_signature_buf ?B1 (?p + 1) (?p + 1) ad (sd + 1) of
               (ok, buf') \<Rightarrow>
                 if \<not> ok then (False, buf')
                 else if (peek (buf'[e - 1 := k]) ?p = DBUS_STRUCT_BEGIN_CHAR \<and>
                            k \<noteq> DBUS_STRUCT_END_CHAR) \<or>
                         (peek (buf'[e - 1 := k]) ?p = DBUS_DICT_ENTRY_BEGIN_CHAR \<and>
                            k \<noteq> DBUS_DICT_ENTRY_END_CHAR)
                 then (False, buf'[e - 1 := k])
                 else check_signature_buf (buf'[e - 1 := k]) start e ad sd)"
          using check_signature_buf_bracket[OF pkb gof, of start ad sd]
          by (simp only: upd pe1)
        have sd: "\<not> 32 \<le> sd" using acc eq by (auto split: if_splits)
        have in1: "fst (check_signature_buf ?B1 (?p + 1) (?p + 1) ad (sd + 1))"
          using acc eq sd by (auto split: prod.splits if_splits)
        from less.hyps[OF lm nm _ less.prems(3), of "?p + 1" "pre @ [c]" "sd + 1" ?R] in1 sd
        obtain ts1 where ts1: "m = render ts1" by auto
        have in_ok: "check_signature_buf ?B1 (?p + 1) (?p + 1) ad (sd + 1) = (True, ?B1)"
          using check_signature_buf_render[of "?p + 1" "pre @ [c]" ad "sd + 1" ts1 ?R] in1 sd
            less.prems(3) unfolding ts1 by auto
        have eq2: "check_signature_buf ?B start ?p ad sd =
             (if (peek ?B ?p = DBUS_STRUCT_BEGIN_CHAR \<and> k \<noteq> DBUS_STRUCT_END_CHAR) \<or>
                 (peek ?B ?p = DBUS_DICT_ENTRY_BEGIN_CHAR \<and> k \<noteq> DBUS_DICT_ENTRY_END_CHAR)
              then (False, ?B)
              else check_signature_buf ?B start e ad sd)"
          unfolding eq in_ok using sd
          by (simp only: rst split_conv if_False not_True_eq_False)
        have match: "(c = DBUS_STRUCT_BEGIN_CHAR \<and> k = DBUS_STRUCT_END_CHAR) \<or>
            (c = DBUS_DICT_ENTRY_BEGIN_CHAR \<and> k = DBUS_DICT_ENTRY_END_CHAR)"
          using acc eq2 True unfolding pk by (auto split: if_splits)
        have "fst (check_signature_buf ?B start e ad sd)"
          using acc eq2 by (auto split: if_splits)
        with cont obtain ts2 where ts2: "s2 = render ts2" by auto
        from match have "s = render (Struct ts1 # ts2) \<or> s = render (DictEntry ts1 # ts2)"
          by (auto simp: s12 s1m ts1 ts2)
        then show ?thesis by blast
      next
        case False
        have "get_one_full_type ?B ?p = Some (?p + 1)"
          using False na c0 pk by (intro get_one_full_type_plain) simp_all
        with gof have e1: "e = ?p + 1" by simp
        then have s1c: "s1 = [c]" using l1 hd1 by (cases s1) simp_all
        have eq: "check_signature_buf ?B start ?p ad sd =
           (if c \<notin> set basic_type_codes then (False, ?B)
            else check_signature_buf ?B start e ad sd)"
          using check_signature_buf_basic[of ?B ?p start ad sd] gof pk c0 e1 by simp
        then have cb: "c \<in> set basic_type_codes" using acc by (auto split: if_splits)
        then obtain b where b: "type_code b = c" using alphabet_type_code by blast
        have "fst (check_signature_buf ?B start e ad sd)"
          using acc eq cb by simp
        with cont obtain ts2 where ts2: "s2 = render ts2" by auto
        have "s = render (Basic b # ts2)" by (simp add: s12 s1c ts2 b)
        then show ?thesis ..
      qed
    qed
  qed
qed

lemma check_signature_iff:
  assumes "NUL \<notin> set s"
  shows "check_signature s \<longleftrightarrow> (\<exists>ts. s = render ts \<and> depths_ok 0 0 ts \<and> length s \<le> 255)"
proof
  assume a: "check_signature s"
  then obtain ts where "s = render ts"
    using accepted_is_render[OF assms, of 0 "[]" 0 0 "[]"] by (auto simp: check_signature_def)
  with a show "\<exists>ts. s = render ts \<and> depths_ok 0 0 ts \<and> length s \<le> 255"
    using check_signature_render[of ts] by auto
next
  assume "\<exists>ts. s = render ts \<and> depths_ok 0 0 ts \<and> length s \<le> 255"
  then show "check_signature s" using check_signature_render by auto
qed

subsection \<open>What the validator rejects\<close>

lemma balanced_from_render1:
  "balanced_from st (render1 t @ rest) = balanced_from st rest"
proof (induction t arbitrary: st rest)
  case (Basic b)
  then show ?case by (simp add: type_code_plain)
next
  case (Array t)
  then show ?case by simp
next
  case (Struct ts)
  have "balanced_from st' (render ts @ r) = balanced_from st' r" for st' r
    using Struct.IH by (induction ts) simp_all
  then show ?case by simp
next
  case (DictEntry ts)
  have "balanced_from st' (render ts @ r) = balanced_from st' r" for st' r
    using DictEntry.IH by (induction ts) simp_all
  then show ?case by simp
qed

lemma balanced_render: "balanced (render ts)"
proof -
  have "balanced_from [] (render ts @ r) = balanced_from [] r" for r
    by (induction ts) (simp_all add: balanced_from_render1)
  from this[of "[]"] show ?thesis by (simp add: balanced_def)
qed

lemma render1_alphabet: "set (render1 t) \<subseteq> set basic_type_codes \<union> set ''a(){}''"
proof (induction t)
  case (Basic b)
  then show ?case using type_code_alphabet[of b] by simp
next
  case (Array t)
  then show ?case by auto
next
  case (Struct ts)
  then show ?case by (auto simp: render_def)
next
  case (DictEntry ts)
  then show ?case by (auto simp: render_def)
qed

lemma render_alphabet: "set (render ts) \<subseteq> set basic_type_codes \<union> set ''a(){}''"
  using render1_alphabet by (auto simp: render_def)

text \<open>
  C2: the claim that every byte of the input is unmodified on return, also when the
  input is rejected, fails on the code. For the C string \<open>aZi\<close> the validator writes
  the terminator over \<open>i\<close> before it recurses into the array's element type, the
  recursive call rejects \<open>Z\<close>, and the early \<open>return 0\<close> leaves without writing \<open>i\<close>
  back: the caller's buffer then holds \<open>aZ\<close> followed by two terminators.
\<close>

theorem check_signature_rejected_buffer:
  "\<not> check_signature ''aZi'' \<and>
   check_signature_buffer ''aZi'' = ''aZ'' @ [NUL, NUL] \<and>
   check_signature_buffer ''aZi'' \<noteq> ''aZi'' @ [NUL]"
  by code_simp

text \<open>
  C3: the validator rejects every C string with unbalanced brackets, every C string
  with a character that is neither one of the 14 type codes nor a structural marker,
  every signature in which the array nesting depth of a full type reaches 33, every
  signature in which the struct/dict-entry nesting depth reaches 33, and every C
  string longer than 255 characters; in particular \<open>(i\<close>, \<open>Z\<close>, 33 array markers followed
  by \<open>i\<close>, \<open>i\<close> inside 33 nested structs, and 256 times \<open>i\<close>.
\<close>

theorem check_signature_rejects:
  "(NUL \<notin> set s \<and> \<not> balanced s \<longrightarrow> \<not> check_signature s) \<and>
   (NUL \<notin> set s \<and> (\<exists>c \<in> set s. c \<notin> set basic_type_codes \<union> set ''a(){}'') \<longrightarrow>
      \<not> check_signature s) \<and>
   ((\<exists>t \<in> set ts. 33 \<le> array_depth t) \<longrightarrow> \<not> check_signature (render ts)) \<and>
   ((\<exists>t \<in> set ts. 33 \<le> struct_depth t) \<longrightarrow> \<not> check_signature (render ts)) \<and>
   (NUL \<notin> set s \<and> 255 < length s \<longrightarrow> \<not> check_signature s) \<and>
   \<not> check_signature ''(i'' \<and>
   \<not> check_signature ''Z'' \<and>
   \<not> check_signature (replicate 33 CHR ''a'' @ ''i'') \<and>
   \<not> check_signature (replicate 33 CHR ''('' @ ''i'' @ replicate 33 CHR '')'') \<and>
   \<not> check_signature (replicate 256 CHR ''i'')"
proof -
  have a: "\<not> check_signature s" if "NUL \<notin> set s" "\<not> balanced s"
    using that check_signature_iff[of s] balanced_render by auto
  have b: "\<not> check_signature s"
    if "NUL \<notin> set s" "\<exists>c \<in> set s. c \<notin> set basic_type_codes \<union> set ''a(){}''"
    using that check_signature_iff[of s] render_alphabet by blast
  have c: "\<not> check_signature (render ts)" if "\<exists>t \<in> set ts. 33 \<le> array_depth t"
    using that check_signature_render[of ts] by (auto simp: depths_ok_def)
  have d: "\<not> check_signature (render ts)" if "\<exists>t \<in> set ts. 33 \<le> struct_depth t"
    using that check_signature_render[of ts] by (auto simp: depths_ok_def)
  have e: "\<not> check_signature s" if "NUL \<notin> set s" "255 < length s"
    using that check_signature_iff[of s] by auto
  have x1: "\<not> check_signature ''(i''" by code_simp
  have x2: "\<not> check_signature ''Z''" by code_simp
  have x3: "\<not> check_signature (replicate 33 CHR ''a'' @ ''i'')" by code_simp
  have x4: "\<not> check_signature (replicate 33 CHR ''('' @ ''i'' @ replicate 33 CHR '')'')"
    by code_simp
  have x5: "\<not> check_signature (replicate 256 CHR ''i'')"
    using check_signature_iff[of "replicate 256 CHR ''i''"] by simp
  from a b c d e x1 x2 x3 x4 x5 show ?thesis by blast
qed

theorem check_signature_rejects_witness:
  "(NUL \<notin> set ''i)'' \<and> \<not> balanced ''i)'' \<and> \<not> check_signature ''i)'') \<and>
   (NUL \<notin> set ''i?'' \<and> CHR ''?'' \<in> set ''i?'' \<and>
      CHR ''?'' \<notin> set basic_type_codes \<union> set ''a(){}'' \<and> \<not> check_signature ''i?'') \<and>
   (33 \<le> array_depth ((Array ^^ 33) (Basic INT32)) \<and>
      \<not> check_signature (render [(Array ^^ 33) (Basic INT32)])) \<and>
   (33 \<le> struct_depth (((\<lambda>t. Struct [t]) ^^ 33) (Basic INT32)) \<and>
      \<not> check_signature (render [((\<lambda>t. Struct [t]) ^^ 33) (Basic INT32)])) \<and>
   (NUL \<notin> set (replicate 300 CHR ''y'') \<and> 255 < length (replicate 300 CHR ''y'') \<and>
      \<not> check_signature (replicate 300 CHR ''y''))"
proof -
  have h1: "NUL \<notin> set ''i)''" "\<not> balanced ''i)''"
    by (simp, code_simp)
  have h2: "NUL \<notin> set ''i?''" "CHR ''?'' \<in> set ''i?''"
    "CHR ''?'' \<notin> set basic_type_codes \<union> set ''a(){}''"
    by (simp_all add: basic_type_codes_def)
  have h3: "33 \<le> array_depth ((Array ^^ 33) (Basic INT32))"
    by code_simp
  have h4: "33 \<le> struct_depth (((\<lambda>t. Struct [t]) ^^ 33) (Basic INT32))"
    by code_simp
  have h5: "NUL \<notin> set (replicate 300 CHR ''y'')" "255 < length (replicate 300 CHR ''y'')"
    by simp_all
  note r1 = check_signature_rejects[of "''i)''" "[]"]
  note r2 = check_signature_rejects[of "''i?''" "[]"]
  note r3 = check_signature_rejects[of "[]" "[(Array ^^ 33) (Basic INT32)]"]
  note r4 = check_signature_rejects[of "[]" "[((\<lambda>t. Struct [t]) ^^ 33) (Basic INT32)]"]
  note r5 = check_signature_rejects[of "replicate 300 CHR ''y''" "[]"]
  have c1: "\<not> check_signature ''i)''" using r1 h1 by blast
  have c2: "\<not> check_signature ''i?''" using r2 h2 by blast
  have c3: "\<not> check_signature (render [(Array ^^ 33) (Basic INT32)])"
    using r3 h3 by simp
  have c4: "\<not> check_signature (render [((\<lambda>t. Struct [t]) ^^ 33) (Basic INT32)])"
    using r4 h4 by simp
  have c5: "\<not> check_signature (replicate 300 CHR ''y'')" using r5 h5 by blast
  from h1 h2 h3 h4 h5 c1 c2 c3 c4 c5 show ?thesis by blast
qed

section \<open>Python objects and errors\<close>

text \<open>
  The exceptions that the module raises. \<open>Error\<close> is the module's own exception
  \<open>_dbus.Error\<close>; \<open>SystemError\<close> stands for an error return without an exception set.
\<close>

datatype error =
  Error | TypeError | TypeError_too_few | TypeError_too_many | ValueError | MemoryError |
  AssertionError | OverflowError | UnicodeDecodeError | UnicodeEncodeError | SystemError

text \<open>
  Modelled from the spec: the text values of section 3 are Python \<open>str\<close> objects, which
  belong to CPython and not to the repository. A \<open>str\<close> is represented by the bytes
  that UTF-8 gives to its code points one by one; a lone surrogate, which a \<open>str\<close> may
  contain, has the three bytes that the scheme gives to its number (\<open>ED A0 80\<close> for
  U+D800), and these are not well-formed UTF-8. \<open>PyUnicode_FromStringAndSize\<close> decodes
  bytes as UTF-8 and fails on bytes that are not well-formed UTF-8 (Python 3: no
  overlong forms, no surrogates, nothing above U+10FFFF). \<open>PyUnicode_AsUTF8\<close> gives the
  UTF-8 encoding of a \<open>str\<close> as a C string and fails with \<open>UnicodeEncodeError\<close> on a \<open>str\<close>
  that has none, which is one that contains a lone surrogate.
\<close>

definition utf8_cont :: "char \<Rightarrow> bool" where
  "utf8_cont c \<longleftrightarrow> 0x80 \<le> (of_char c :: nat) \<and> (of_char c :: nat) \<le> 0xBF"

fun utf8_valid :: "string \<Rightarrow> bool" where
  "utf8_valid [] = True"
| "utf8_valid (c # cs) =
     (if (of_char c :: nat) < 0x80 then utf8_valid cs
      else if 0xC2 \<le> (of_char c :: nat) \<and> (of_char c :: nat) \<le> 0xDF then
        1 \<le> length cs \<and> utf8_cont (cs ! 0) \<and> utf8_valid (drop 1 cs)
      else if 0xE0 \<le> (of_char c :: nat) \<and> (of_char c :: nat) \<le> 0xEF then
        2 \<le> length cs \<and> utf8_cont (cs ! 0) \<and> utf8_cont (cs ! 1) \<and>
        (of_char c = (0xE0 :: nat) \<longrightarrow> 0xA0 \<le> (of_char (cs ! 0) :: nat)) \<and>
        (of_char c = (0xED :: nat) \<longrightarrow> (of_char (cs ! 0) :: nat) \<le> 0x9F) \<and>
        utf8_valid (drop 2 cs)
      else if 0xF0 \<le> (of_char c :: nat) \<and> (of_char c :: nat) \<le> 0xF4 then
        3 \<le> length cs \<and> utf8_cont (cs ! 0) \<and> utf8_cont (cs ! 1) \<and> utf8_cont (cs ! 2) \<and>
        (of_char c = (0xF0 :: nat) \<longrightarrow> 0x90 \<le> (of_char (cs ! 0) :: nat)) \<and>
        (of_char c = (0xF4 :: nat) \<longrightarrow> (of_char (cs ! 0) :: nat) \<le> 0x8F) \<and>
        utf8_valid (drop 3 cs)
      else False)"

definition PyUnicode_FromStringAndSize :: "string \<Rightarrow> nat \<Rightarrow> nat \<Rightarrow> error + string" where
  "PyUnicode_FromStringAndSize buf ptr n =
     (if utf8_valid (take n (drop ptr buf)) then Inr (take n (drop ptr buf))
      else Inl UnicodeDecodeError)"

definition PyUnicode_AsUTF8 :: "string \<Rightarrow> error + string" where
  "PyUnicode_AsUTF8 s = (if utf8_valid s then Inr s else Inl UnicodeEncodeError)"

section \<open>Splitting a signature\<close>

text \<open>
  \<open>split_signature\<close>: the loop over \<open>ptr\<close> with the list built so far. The format \<open>s\<close>
  of \<open>PyArg_ParseTuple\<close> hands over a C string, so the buffer is the argument followed
  by the terminator. A \<open>NULL\<close> from \<open>get_one_full_type\<close> raises the module's \<open>Error\<close>.
\<close>

function split_signature_loop :: "string \<Rightarrow> nat \<Rightarrow> string list \<Rightarrow> error + string list" where
  "split_signature_loop buf ptr plist =
     (if peek buf ptr \<noteq> NUL then
        (case get_one_full_type buf ptr of
           None \<Rightarrow> Inl Error
         | Some e \<Rightarrow>
             (case PyUnicode_FromStringAndSize buf ptr (e - ptr) of
                Inl err \<Rightarrow> Inl err
              | Inr pstr \<Rightarrow> split_signature_loop buf e (plist @ [pstr])))
      else Inr plist)"
  by pat_completeness auto
termination
proof (relation "measure (\<lambda>(buf, ptr, plist). length buf - ptr)", goal_cases)
  case 1
  show ?case by simp
next
  case (2 buf ptr plist e pstr)
  then show ?case
    using get_one_full_type_gt[of buf ptr e] peek_nonNUL_lt[of buf ptr] by simp
qed

declare split_signature_loop.simps [simp del]

definition split_signature :: "string \<Rightarrow> error + string list" where
  "split_signature signature = split_signature_loop (signature @ [NUL]) 0 []"

lemma utf8_valid_ascii: "\<forall>c \<in> set s. (of_char c :: nat) < 128 \<Longrightarrow> utf8_valid s"
  by (induction s) simp_all

lemma type_code_ascii: "(of_char (type_code b) :: nat) < 128"
  by (cases b) simp_all

lemma render1_ascii: "c \<in> set (render1 t) \<Longrightarrow> (of_char c :: nat) < 128"
  by (induction t) (auto simp: type_code_ascii render_def)

lemma split_signature_loop_render:
  "split_signature_loop (pre @ render ts @ [NUL]) (length pre) plist = Inr (plist @ map render1 ts)"
proof (induction ts arbitrary: pre plist)
  case Nil
  show ?case by (subst split_signature_loop.simps) simp
next
  case (Cons t ts)
  let ?B = "pre @ render (t # ts) @ [NUL]"
  have B: "?B = pre @ render1 t @ (render ts @ [NUL])" by simp
  have g: "get_one_full_type ?B (length pre) = Some (length pre + length (render1 t))"
    unfolding B by (rule get_one_full_type_render1)
  have pk: "peek ?B (length pre) \<noteq> NUL"
    using NUL_notin_render1[of t] by (cases "render1 t") (auto simp: peek_def nth_append)
  have u: "PyUnicode_FromStringAndSize ?B (length pre) (length (render1 t)) = Inr (render1 t)"
    using utf8_valid_ascii[of "render1 t"] render1_ascii[of _ t]
    by (simp add: PyUnicode_FromStringAndSize_def)
  have "split_signature_loop ?B (length pre) plist =
        split_signature_loop ?B (length pre + length (render1 t)) (plist @ [render1 t])"
    using g pk u by (subst split_signature_loop.simps) simp
  also have "\<dots> = split_signature_loop ((pre @ render1 t) @ render ts @ [NUL])
      (length (pre @ render1 t)) (plist @ [render1 t])"
    by simp
  also have "\<dots> = Inr ((plist @ [render1 t]) @ map render1 ts)"
    by (rule Cons.IH)
  finally show ?case by simp
qed

lemma split_signature_render: "split_signature (render ts) = Inr (map render1 ts)"
  using split_signature_loop_render[of "[]" ts "[]"] by (simp add: split_signature_def)

text \<open>
  C9: \<open>split_signature\<close> returns the top-level full types of a signature in order,
  each as it stands and without splitting its contents: the signature of the full
  types \<open>ts\<close> is split into the renderings of the members of \<open>ts\<close>; \<open>ii\<close> gives \<open>i\<close>, \<open>i\<close>,
  and \<open>ai\<close> and \<open>a{is}\<close> each give themselves.
\<close>

theorem split_signature_top_level:
  "split_signature (render ts) = Inr (map render1 ts) \<and>
   split_signature ''ii'' = Inr [''i'', ''i''] \<and>
   split_signature ''ai'' = Inr [''ai''] \<and>
   split_signature ''a{is}'' = Inr [''a{is}'']"
proof -
  have "split_signature ''ii'' = Inr [''i'', ''i'']"
    "split_signature ''ai'' = Inr [''ai'']"
    "split_signature ''a{is}'' = Inr [''a{is}'']"
    by code_simp+
  then show ?thesis using split_signature_render[of ts] by simp
qed

theorem split_signature_top_level_witness:
  "split_signature (render [Basic INT32, Array (Struct [Basic STRING, Basic BYTE])]) =
     Inr [''i'', ''a(sy)'']"
  using split_signature_top_level[of "[Basic INT32, Array (Struct [Basic STRING, Basic BYTE])]"]
  by simp

lemma split_signature_single:
  assumes "(of_char c :: nat) < 128" "c \<noteq> NUL" "c \<noteq> DBUS_TYPE_ARRAY"
    "c \<noteq> DBUS_STRUCT_BEGIN_CHAR" "c \<noteq> DBUS_DICT_ENTRY_BEGIN_CHAR"
  shows "split_signature [c] = Inr [[c]]"
proof -
  have g: "get_one_full_type [c, NUL] 0 = Some 1"
    using assms get_one_full_type_plain[of "[c, NUL]" 0] by (simp add: peek_def)
  have "split_signature_loop [c, NUL] 0 [] = split_signature_loop [c, NUL] 1 [[c]]"
    using assms g by (subst split_signature_loop.simps)
      (simp add: peek_def PyUnicode_FromStringAndSize_def)
  also have "\<dots> = Inr [[c]]"
    by (subst split_signature_loop.simps) (simp add: peek_def)
  finally show ?thesis by (simp add: split_signature_def)
qed

lemma check_signature_single:
  assumes "c \<noteq> NUL" "c \<notin> set basic_type_codes"
  shows "\<not> check_signature [c]"
proof
  assume "check_signature [c]"
  then obtain ts where ts: "[c] = render ts" "depths_ok 0 0 ts"
    using check_signature_iff[of "[c]"] assms(1) by auto
  then obtain t where t: "ts = [t]" "render1 t = [c]"
    by (cases ts) (auto simp: Cons_eq_append_conv)
  then obtain b where "t = Basic b" by (cases t) auto
  with t assms(2) show False using type_code_alphabet[of b] by simp
qed

text \<open>
  C10, as stated, fails on the code: \<open>split_signature\<close> builds each result string with
  \<open>PyUnicode_FromStringAndSize\<close>, which decodes UTF-8, so a single byte outside ASCII
  (here 0xE9), although it is neither a marker nor the terminator, makes the call
  fail; so does the two-byte UTF-8 encoding of one non-ASCII character (here U+00E9),
  which is cut after its first byte.
\<close>

theorem split_signature_non_ascii:
  "CHR 0xE9 \<noteq> DBUS_TYPE_ARRAY \<and> CHR 0xE9 \<noteq> DBUS_STRUCT_BEGIN_CHAR \<and>
   CHR 0xE9 \<noteq> DBUS_DICT_ENTRY_BEGIN_CHAR \<and> CHR 0xE9 \<noteq> NUL \<and>
   split_signature [CHR 0xE9] = Inl UnicodeDecodeError \<and>
   split_signature [CHR 0xC3, CHR 0xA9] = Inl UnicodeDecodeError"
  by code_simp

text \<open>
  C10, amended: for every single ASCII character \<open>c\<close> that is not the array marker, not
  a struct or dict-entry opener and not the terminator, \<open>split_signature\<close> applied to
  the one-character string succeeds and returns that string alone, although
  \<open>check_signature\<close> rejects the string when \<open>c\<close> is not one of the 14 type codes; so it
  is for \<open>Z\<close>.
\<close>

theorem split_signature_unchecked_code:
  "((of_char c :: nat) < 128 \<and> c \<noteq> NUL \<and> c \<noteq> DBUS_TYPE_ARRAY \<and>
      c \<noteq> DBUS_STRUCT_BEGIN_CHAR \<and> c \<noteq> DBUS_DICT_ENTRY_BEGIN_CHAR \<longrightarrow>
      split_signature [c] = Inr [[c]] \<and>
      (c \<notin> set basic_type_codes \<longrightarrow> \<not> check_signature [c])) \<and>
   split_signature ''Z'' = Inr [''Z''] \<and> \<not> check_signature ''Z''"
proof -
  have "split_signature ''Z'' = Inr [''Z'']" "\<not> check_signature ''Z''"
    by code_simp+
  then show ?thesis
    using split_signature_single[of c] check_signature_single[of c] by blast
qed

theorem split_signature_unchecked_code_witness:
  "(of_char CHR ''?'' :: nat) < 128 \<and> CHR ''?'' \<noteq> NUL \<and> CHR ''?'' \<noteq> DBUS_TYPE_ARRAY \<and>
   CHR ''?'' \<noteq> DBUS_STRUCT_BEGIN_CHAR \<and> CHR ''?'' \<noteq> DBUS_DICT_ENTRY_BEGIN_CHAR \<and>
   CHR ''?'' \<notin> set basic_type_codes \<and>
   split_signature ''?'' = Inr [''?''] \<and> \<not> check_signature ''?''"
proof -
  have h: "(of_char CHR ''?'' :: nat) < 128" "CHR ''?'' \<noteq> NUL" "CHR ''?'' \<noteq> DBUS_TYPE_ARRAY"
    "CHR ''?'' \<noteq> DBUS_STRUCT_BEGIN_CHAR" "CHR ''?'' \<noteq> DBUS_DICT_ENTRY_BEGIN_CHAR"
    "CHR ''?'' \<notin> set basic_type_codes"
    by (simp_all add: basic_type_codes_def)
  from split_signature_unchecked_code[of "CHR ''?''"] h show ?thesis by blast
qed

section \<open>Native values and the wire\<close>

text \<open>
  Modelled from the spec: the native values of section 3 are Python objects, which
  belong to CPython and not to the repository. The model has the objects that the
  decoder builds and the encoder tests for: \<open>int\<close> (unbounded), \<open>bool\<close>, \<open>float\<close> (its 64
  bits), \<open>str\<close> (its bytes as above), \<open>bytes\<close>, \<open>tuple\<close>, \<open>list\<close>, \<open>dict\<close> (its items in
  the order in which the \<open>dict\<close> gives them) and \<open>None\<close>. It follows Python 3, where \<open>str\<close>
  and \<open>bytes\<close> are distinct types. Objects are values: the identity of an object is
  not modelled.
\<close>

datatype pyobj =
  PyNone
| PyBool bool
| PyLong int
| PyFloat "64 word"
| PyUnicode string
| PyBytes "8 word list"
| PyTuple "pyobj list"
| PyList "pyobj list"
| PyDict "(pyobj \<times> pyobj) list"

text \<open>\<open>PyLong_Check\<close> and the value of an integer object; \<open>bool\<close> is a subclass of \<open>int\<close>.\<close>

fun PyLong_value :: "pyobj \<Rightarrow> int option" where
  "PyLong_value (PyLong n) = Some n"
| "PyLong_value (PyBool b) = Some (if b then 1 else 0)"
| "PyLong_value _ = None"

text \<open>\<open>PyObject_IsTrue\<close>, which does not fail on these objects.\<close>

fun PyObject_IsTrue :: "pyobj \<Rightarrow> bool" where
  "PyObject_IsTrue PyNone = False"
| "PyObject_IsTrue (PyBool b) = b"
| "PyObject_IsTrue (PyLong n) = (n \<noteq> 0)"
| "PyObject_IsTrue (PyFloat d) = (take_bit 63 d \<noteq> 0)"
| "PyObject_IsTrue (PyUnicode s) = (s \<noteq> [])"
| "PyObject_IsTrue (PyBytes bs) = (bs \<noteq> [])"
| "PyObject_IsTrue (PyTuple xs) = (xs \<noteq> [])"
| "PyObject_IsTrue (PyList xs) = (xs \<noteq> [])"
| "PyObject_IsTrue (PyDict kvs) = (kvs \<noteq> [])"

text \<open>
  \<open>PyFloat_AsDouble\<close>: a \<open>float\<close> gives its value; an \<open>int\<close> is converted to the nearest
  double, ties to even, and raises \<open>OverflowError\<close> beyond the range of doubles; the
  other objects have no conversion to \<open>float\<close>.
\<close>

function bit_length :: "int \<Rightarrow> nat" where
  "bit_length m = (if m \<le> 0 then 0 else Suc (bit_length (m div 2)))"
  by pat_completeness auto
termination
  by (relation "measure nat") auto

declare bit_length.simps [simp del]

definition PyLong_AsDouble :: "int \<Rightarrow> error + 64 word" where
  "PyLong_AsDouble n =
     (if n = 0 then Inr 0
      else
        let m = \<bar>n\<bar>;
            e = bit_length m - 1;
            q = (if e \<le> 52 then m * 2 ^ (52 - e)
                 else
                   let q0 = m div 2 ^ (e - 52);
                       r = m mod 2 ^ (e - 52);
                       half = 2 ^ (e - 53)
                   in if r > half \<or> (r = half \<and> odd q0) then q0 + 1 else q0);
            e' = (if q = 2 ^ 53 then e + 1 else e);
            q' = (if q = 2 ^ 53 then 2 ^ 52 else q)
        in if e' > 1023 then Inl OverflowError
           else Inr (word_of_int ((if n < 0 then 2 ^ 63 else 0) + (int e' + 1023) * 2 ^ 52 +
                                  (q' - 2 ^ 52))))"

fun PyFloat_AsDouble :: "pyobj \<Rightarrow> error + 64 word" where
  "PyFloat_AsDouble (PyFloat d) = Inr d"
| "PyFloat_AsDouble (PyLong n) = PyLong_AsDouble n"
| "PyFloat_AsDouble (PyBool b) = PyLong_AsDouble (if b then 1 else 0)"
| "PyFloat_AsDouble _ = Inl TypeError"

text \<open>
  The sequence protocol (\<open>PySequence_Check\<close>, \<open>PySequence_Size\<close>, \<open>PySequence_GetItem\<close>): the
  items of a sequence, or \<open>None\<close> for an object that is not a sequence. The items of a
  \<open>str\<close> are its characters, each a \<open>str\<close>; the items of a \<open>bytes\<close> are integers; a \<open>dict\<close>
  is not a sequence.
\<close>

function utf8_chars :: "string \<Rightarrow> string list" where
  "utf8_chars [] = []"
| "utf8_chars (c # cs) = (c # takeWhile utf8_cont cs) # utf8_chars (dropWhile utf8_cont cs)"
  by pat_completeness auto
termination
  by (relation "measure length") (auto simp: length_dropWhile_le le_imp_less_Suc)

fun PySequence_items :: "pyobj \<Rightarrow> pyobj list option" where
  "PySequence_items (PyTuple xs) = Some xs"
| "PySequence_items (PyList xs) = Some xs"
| "PySequence_items (PyUnicode s) = Some (map PyUnicode (utf8_chars s))"
| "PySequence_items (PyBytes bs) = Some (map (\<lambda>b. PyLong (uint b)) bs)"
| "PySequence_items _ = None"

text \<open>\<open>PyDict_Items\<close>: the items of a \<open>dict\<close> as a list of pairs (tuples of length 2).\<close>

definition PyDict_Items :: "(pyobj \<times> pyobj) list \<Rightarrow> pyobj list" where
  "PyDict_Items kvs = map (\<lambda>(k, v). PyTuple [k, v]) kvs"

text \<open>
  Python's equality of keys. \<open>PyDict_SetItem\<close> finds a key that is present by its hash
  and \<open>==\<close>, and objects that are equal have the same hash. Numbers are equal when
  their values are: \<open>True\<close>, \<open>1\<close> and \<open>1.0\<close> are one key, and so are \<open>0.0\<close> and \<open>-0.0\<close>; a NaN
  is equal to no number, itself included. A \<open>str\<close> is equal to a \<open>str\<close> with the same
  characters, \<open>bytes\<close> to the same \<open>bytes\<close>, a \<open>tuple\<close> to a \<open>tuple\<close> with equal items, and
  objects of different kinds are not equal. \<open>double_value\<close> is the number that the 64
  bits of a \<open>float\<close> stand for (IEEE 754 binary64), \<open>py_key\<close> what an object is compared
  by, with \<open>None\<close> for an object equal to nothing. Every object that the decoder
  inserts as a key is a new object, so that no key is found by its identity alone.
\<close>

datatype number = Finite rat | PosInf | NegInf

definition double_value :: "64 word \<Rightarrow> number option" where
  "double_value d =
     (let s = bit d 63;
          e = unat (take_bit 11 (drop_bit 52 d));
          m = uint (take_bit 52 d)
      in if e = 2047 then (if m = 0 then Some (if s then NegInf else PosInf) else None)
         else
           let q = (if e = 0 then of_int m / 2 ^ 1074
                    else if 1075 \<le> e then of_int (2 ^ 52 + m) * 2 ^ (e - 1075)
                    else of_int (2 ^ 52 + m) / 2 ^ (1075 - e))
           in Some (Finite (if s then - q else q)))"

datatype key = KNone | KNumber number | KStr string | KBytes "8 word list" | KTuple "key list"

fun py_key :: "pyobj \<Rightarrow> key option" where
  "py_key PyNone = Some KNone"
| "py_key (PyBool b) = Some (KNumber (Finite (if b then 1 else 0)))"
| "py_key (PyLong n) = Some (KNumber (Finite (of_int n)))"
| "py_key (PyFloat d) = map_option KNumber (double_value d)"
| "py_key (PyUnicode s) = Some (KStr s)"
| "py_key (PyBytes bs) = Some (KBytes bs)"
| "py_key (PyTuple xs) =
     (if list_all (\<lambda>x. py_key x \<noteq> None) xs then Some (KTuple (map (\<lambda>x. the (py_key x)) xs))
      else None)"
| "py_key (PyList xs) = None"
| "py_key (PyDict kvs) = None"

definition py_eq :: "pyobj \<Rightarrow> pyobj \<Rightarrow> bool" where
  "py_eq a b \<longleftrightarrow> py_key a \<noteq> None \<and> py_key a = py_key b"

text \<open>
  \<open>PyDict_SetItem\<close>: a key must be hashable (a \<open>list\<close> and a \<open>dict\<close> are not, a \<open>tuple\<close> is when
  its items are); when an equal key is present, that key stays and gets the new
  value, otherwise the new key is added with the value. In the list of the items
  a new key is added at the end, which is the order of a \<open>dict\<close> of Python 3.7 and
  later; in an earlier Python the order of the items is not determined.
  \<open>PyDict_GetItem\<close> is the value present under a key.
\<close>

fun py_hashable :: "pyobj \<Rightarrow> bool" where
  "py_hashable (PyTuple xs) = list_all py_hashable xs"
| "py_hashable (PyList xs) = False"
| "py_hashable (PyDict kvs) = False"
| "py_hashable _ = True"

fun dict_update :: "pyobj \<Rightarrow> pyobj \<Rightarrow> (pyobj \<times> pyobj) list \<Rightarrow> (pyobj \<times> pyobj) list" where
  "dict_update k v [] = [(k, v)]"
| "dict_update k v (p # ps) =
     (if py_eq (fst p) k then (fst p, v) # ps else p # dict_update k v ps)"

definition PyDict_SetItem ::
  "(pyobj \<times> pyobj) list \<Rightarrow> pyobj \<Rightarrow> pyobj \<Rightarrow> error + (pyobj \<times> pyobj) list" where
  "PyDict_SetItem d k v = (if py_hashable k then Inr (dict_update k v d) else Inl TypeError)"

definition PyDict_GetItem :: "(pyobj \<times> pyobj) list \<Rightarrow> pyobj \<Rightarrow> pyobj option" where
  "PyDict_GetItem d k = map_option snd (find (\<lambda>p. py_eq (fst p) k) d)"

text \<open>
  A C string read from the buffer that \<open>PyUnicode_AsUTF8\<close> returns (by \<open>_check_path\<close>,
  \<open>strdup\<close>, libdbus): the bytes before the first terminator.
\<close>

definition c_str :: "string \<Rightarrow> string" where
  "c_str s = takeWhile (\<lambda>c. c \<noteq> NUL) s"

text \<open>
  Modelled from the spec: the wire cursor and the wire sink of sections 4.4 and 4.5
  are message iterators of the external library libdbus. A message body is modelled
  as the list of typed values that were appended to it, a container holding the
  values appended between its opening and its closing; an array also holds the
  signature of its element type and a variant the signature of its content, as given
  to \<open>dbus_message_iter_open_container\<close>. Reading returns the values in the order in
  which they were appended. Allocation never fails.
\<close>

datatype wire =
  WByte "8 word"
| WBoolean "32 word"
| WInt16 "16 word"
| WUInt16 "16 word"
| WInt32 "32 word"
| WUInt32 "32 word"
| WInt64 "64 word"
| WUInt64 "64 word"
| WDouble "64 word"
| WString string
| WObjectPath string
| WSignature string
| WUnixFd "32 word"
| WStruct "wire list"
| WArray string "wire list"
| WDictEntry "wire list"
| WVariant string wire

text \<open>
  \<open>dbus_message_iter_get_fixed_array\<close> on an array of bytes: the block of its bytes.
\<close>

fun wire_bytes :: "wire list \<Rightarrow> 8 word list" where
  "wire_bytes [] = []"
| "wire_bytes (WByte b # ws) = b # wire_bytes ws"
| "wire_bytes (w # ws) = wire_bytes ws"

section \<open>Argument decoder\<close>

text \<open>
  \<open>message_read_arg\<close> reads the value under the iterator and \<open>message_read_args\<close> the
  values up to the end of the iterator. The parameter \<open>depth\<close> of the source is never
  read and is left out. The loop over the elements of an array is
  \<open>message_read_dict\<close> when the array was created as a \<open>dict\<close> (element type dict-entry)
  and \<open>message_read_list\<close> otherwise; their first argument is \<open>Parg\<close>. An iterator at
  its end has the type \<open>DBUS_TYPE_INVALID\<close>, for which the \<open>switch\<close> has no case: the
  source then returns \<open>NULL\<close> with no exception set, as it does for a file descriptor.
\<close>

fun message_read_arg :: "wire \<Rightarrow> error + pyobj"
  and message_read_args :: "wire list \<Rightarrow> error + pyobj list"
  and message_read_dict :: "(pyobj \<times> pyobj) list \<Rightarrow> wire list \<Rightarrow> error + pyobj"
  and message_read_list :: "pyobj list \<Rightarrow> wire list \<Rightarrow> error + pyobj"
where
  "message_read_arg (WByte v) = Inr (PyLong (uint v))"
| "message_read_arg (WBoolean v) = Inr (PyBool (v \<noteq> 0))"
| "message_read_arg (WInt16 v) = Inr (PyLong (sint v))"
| "message_read_arg (WUInt16 v) = Inr (PyLong (uint v))"
| "message_read_arg (WInt32 v) = Inr (PyLong (sint v))"
| "message_read_arg (WUInt32 v) = Inr (PyLong (uint v))"
| "message_read_arg (WInt64 v) = Inr (PyLong (sint v))"
| "message_read_arg (WUInt64 v) = Inr (PyLong (uint v))"
| "message_read_arg (WDouble v) = Inr (PyFloat v)"
| "message_read_arg (WString v) = Inr (PyUnicode v)"
| "message_read_arg (WObjectPath v) = Inr (PyUnicode v)"
| "message_read_arg (WSignature v) = Inr (PyUnicode v)"
| "message_read_arg (WUnixFd v) = Inl SystemError"
| "message_read_arg (WStruct ws) =
     (case message_read_args ws of
        Inl err \<Rightarrow> Inl err
      | Inr xs \<Rightarrow> Inr (PyTuple xs))"
| "message_read_arg (WArray sig ws) =
     (if peek sig 0 = DBUS_TYPE_BYTE then Inr (PyBytes (wire_bytes ws))
      else if peek sig 0 = DBUS_DICT_ENTRY_BEGIN_CHAR then message_read_dict [] ws
      else message_read_list [] ws)"
| "message_read_arg (WDictEntry ws) =
     (case ws of
        [] \<Rightarrow> Inl SystemError
      | wk # ws' \<Rightarrow>
          (case message_read_arg wk of
             Inl err \<Rightarrow> Inl err
           | Inr pkey \<Rightarrow>
               (case ws' of
                  [] \<Rightarrow> Inl Error
                | wv # ws'' \<Rightarrow>
                    (case message_read_arg wv of
                       Inl err \<Rightarrow> Inl err
                     | Inr pvalue \<Rightarrow> Inr (PyTuple [pkey, pvalue])))))"
| "message_read_arg (WVariant sig w) =
     (case message_read_arg w of
        Inl err \<Rightarrow> Inl err
      | Inr pvalue \<Rightarrow> Inr (PyTuple [PyUnicode sig, pvalue]))"
| "message_read_args [] = Inr []"
| "message_read_args (w # ws) =
     (case message_read_arg w of
        Inl err \<Rightarrow> Inl err
      | Inr parg \<Rightarrow>
          (case message_read_args ws of
             Inl err \<Rightarrow> Inl err
           | Inr pargs \<Rightarrow> Inr (parg # pargs)))"
| "message_read_dict d [] = Inr (PyDict d)"
| "message_read_dict d (w # ws) =
     (case message_read_arg w of
        Inl err \<Rightarrow> Inl err
      | Inr pitem \<Rightarrow>
          (case pitem of
             PyTuple [k, v] \<Rightarrow>
               (case PyDict_SetItem d k v of
                  Inl err \<Rightarrow> Inl err
                | Inr d' \<Rightarrow> message_read_dict d' ws)
           | _ \<Rightarrow> Inl AssertionError))"
| "message_read_list l [] = Inr (PyList l)"
| "message_read_list l (w # ws) =
     (case message_read_arg w of
        Inl err \<Rightarrow> Inl err
      | Inr pitem \<Rightarrow> message_read_list (l @ [pitem]) ws)"

text \<open>
  \<open>message_get_args\<close>: the arguments of a message as a tuple; a message without
  arguments gives the empty tuple.
\<close>

definition message_get_args :: "wire list \<Rightarrow> error + pyobj" where
  "message_get_args body =
     (case message_read_args body of
        Inl err \<Rightarrow> Inl err
      | Inr pargs \<Rightarrow> Inr (PyTuple pargs))"

section \<open>Numeric bounds\<close>

text \<open>
  \<open>check_numbers\<close>: the array of literals that \<open>init_check_number_cache\<close> turns into
  Python integers, in its order.
\<close>

definition check_numbers :: "int list" where
  "check_numbers =
     [0x0, 0xff, 0xffff, 0xffffffff, 0xffffffffffffffff,
      - 0x8000, 0x7fff,
      - 0x80000000, 0x7fffffff,
      - 0x8000000000000000, 0x7fffffffffffffff]"

text \<open>
  \<open>check_number\<close>: \<open>TypeError\<close> for an object that is not an integer, \<open>ValueError\<close> for an
  integer out of range, and for a type code without bounds the value 0 with no
  exception set.
\<close>

definition check_number :: "pyobj \<Rightarrow> char \<Rightarrow> error + unit" where
  "check_number number type =
     (case PyLong_value number of
        None \<Rightarrow> Inl TypeError
      | Some n \<Rightarrow>
          (case (if type = DBUS_TYPE_BYTE then Some (check_numbers ! 0, check_numbers ! 1)
                 else if type = DBUS_TYPE_UINT16 then Some (check_numbers ! 0, check_numbers ! 2)
                 else if type = DBUS_TYPE_UINT32 then Some (check_numbers ! 0, check_numbers ! 3)
                 else if type = DBUS_TYPE_UINT64 then Some (check_numbers ! 0, check_numbers ! 4)
                 else if type = DBUS_TYPE_INT16 then Some (check_numbers ! 5, check_numbers ! 6)
                 else if type = DBUS_TYPE_INT32 then Some (check_numbers ! 7, check_numbers ! 8)
                 else if type = DBUS_TYPE_INT64 then Some (check_numbers ! 9, check_numbers ! 10)
                 else None) of
             None \<Rightarrow> Inl SystemError
           | Some (pmin, pmax) \<Rightarrow>
               if n < pmin \<or> n > pmax then Inl ValueError else Inr ()))"

text \<open>
  The Numeric Bounds Table in the words of the specification (section 4.2): each
  fixed-width integer kind with its exact minimum and maximum, unsigned of 8, 16, 32
  and 64 bits and signed of 16, 32 and 64 bits.
\<close>

definition numeric_bounds :: "char \<Rightarrow> (int \<times> int) option" where
  "numeric_bounds c =
     (if c = CHR ''y'' then Some (0, 2 ^ 8 - 1)
      else if c = CHR ''q'' then Some (0, 2 ^ 16 - 1)
      else if c = CHR ''u'' then Some (0, 2 ^ 32 - 1)
      else if c = CHR ''t'' then Some (0, 2 ^ 64 - 1)
      else if c = CHR ''n'' then Some (- (2 ^ 15), 2 ^ 15 - 1)
      else if c = CHR ''i'' then Some (- (2 ^ 31), 2 ^ 31 - 1)
      else if c = CHR ''x'' then Some (- (2 ^ 63), 2 ^ 63 - 1)
      else None)"

section \<open>Argument encoder\<close>

text \<open>A measure of Python objects for the termination of the encoder.\<close>

fun pysize :: "pyobj \<Rightarrow> nat" where
  "pysize (PyUnicode s) = length s"
| "pysize (PyBytes bs) = 1"
| "pysize (PyTuple xs) = Suc (sum_list (map pysize xs))"
| "pysize (PyList xs) = Suc (sum_list (map pysize xs))"
| "pysize (PyDict kvs) = Suc (sum_list (map (\<lambda>kv. Suc (pysize (fst kv) + pysize (snd kv))) kvs))"
| "pysize _ = 0"

lemma concat_utf8_chars: "concat (utf8_chars s) = s"
  by (induction s rule: utf8_chars.induct) simp_all

lemma utf8_chars_nonempty: "x \<in> set (utf8_chars s) \<Longrightarrow> x \<noteq> []"
  by (induction s rule: utf8_chars.induct) auto

lemma sum_length_utf8_chars: "sum_list (map length (utf8_chars s)) = length s"
  using concat_utf8_chars[of s] length_concat[of "utf8_chars s"] by simp

lemma pysize_items:
  "PySequence_items arg = Some items \<Longrightarrow> sum_list (map pysize items) \<le> pysize arg"
  by (cases arg) (auto simp: comp_def sum_length_utf8_chars)

lemma pysize_second_item:
  assumes "PySequence_items arg = Some items" "length items = 2"
  shows "pysize (items ! 1) < pysize arg"
proof -
  obtain a b where ab: "items = [a, b]"
    using assms(2) by (cases items; cases "tl items") auto
  have "sum_list (map pysize items) \<le> pysize arg" using assms(1) by (rule pysize_items)
  show ?thesis
  proof (cases arg)
    case (PyUnicode s)
    then obtain x y where "utf8_chars s = [x, y]" "a = PyUnicode x" "b = PyUnicode y"
      using assms(1) ab by (auto simp: map_eq_Cons_conv)
    moreover from this have "x \<noteq> []" "length x + length y = length s"
      using utf8_chars_nonempty[of x s] sum_length_utf8_chars[of s] by auto
    ultimately show ?thesis using PyUnicode ab by (cases x) auto
  qed (use assms(1) ab in auto)
qed

lemma pysize_dict_items: "sum_list (map pysize (PyDict_Items kvs)) < pysize (PyDict kvs)"
  by (induction kvs) (auto simp: PyDict_Items_def)

text \<open>
  The step of \<open>message_append_args\<close> over the closer of a struct or dict-entry
  (\<open>signature++\<close> when \<open>*signature\<close> is a closer).
\<close>

definition skip_end_char :: "string \<Rightarrow> string" where
  "skip_end_char signature =
     (if peek signature 0 = DBUS_STRUCT_END_CHAR \<or> peek signature 0 = DBUS_DICT_ENTRY_END_CHAR
      then tl signature else signature)"

lemma peek_0_nonNUL: "peek s 0 \<noteq> NUL \<Longrightarrow> s \<noteq> []"
  by (auto simp: peek_def)

lemma length_skip_end_char: "length (skip_end_char s) \<le> length s"
  by (simp add: skip_end_char_def)

text \<open>
  \<open>message_append_arg\<close> appends one value for the full type at \<open>signature\<close> and
  \<open>message_append_args\<close> one value for each full type of \<open>signature\<close>. The C string
  \<open>signature\<close> is given by its characters: \<open>signature + 1\<close> is its tail, and the
  sub-signature that \<open>message_append_args\<close> cuts off with a terminator at \<open>end\<close> is
  \<open>take e signature\<close>. \<open>args\<close> are the items of the sequence from index \<open>curarg\<close> on; each
  caller has checked \<open>PySequence_Check\<close> before. \<open>message_append_items\<close> is the \<open>for\<close> loop
  over the items of an array. The length of a \<open>bytes\<close> object is narrowed to \<open>int\<close>, 32
  bits, and libdbus appends that many bytes; it refuses a negative count, which the
  source reports as \<open>MemoryError\<close>. Every other call of libdbus is taken to succeed,
  although libdbus refuses some of what the source gives it (the signature \<open>()\<close>, a
  dict-entry outside an array, an array of more than 64 MiB). The loops count the
  items of a sequence with an \<open>int\<close>; the model stands for the source on sequences of
  fewer than \<open>2 ^ 31\<close> items. A result is the value appended to the iterator, or the
  exception raised. A \<open>NULL\<close> from \<open>get_one_full_type\<close> is reported as \<open>Error\<close>.
  \<open>TypeError_too_few\<close> and \<open>TypeError_too_many\<close> are the \<open>TypeError\<close> raised with the messages
  "too few arguments for signature string" and "too many arguments for signature
  string".
\<close>

function message_append_arg :: "string \<Rightarrow> pyobj \<Rightarrow> error + wire"
  and message_append_args :: "string \<Rightarrow> pyobj list \<Rightarrow> error + wire list"
  and message_append_items :: "string \<Rightarrow> pyobj list \<Rightarrow> error + wire list"
where
  "message_append_arg signature arg =
     (if peek signature 0 = DBUS_TYPE_BYTE then
        (case check_number arg (peek signature 0) of
           Inl err \<Rightarrow> Inl err
         | Inr _ \<Rightarrow> Inr (WByte (word_of_int (the (PyLong_value arg)))))
      else if peek signature 0 = DBUS_TYPE_BOOLEAN then
        Inr (WBoolean (if PyObject_IsTrue arg then 1 else 0))
      else if peek signature 0 = DBUS_TYPE_INT16 then
        (case check_number arg (peek signature 0) of
           Inl err \<Rightarrow> Inl err
         | Inr _ \<Rightarrow> Inr (WInt16 (word_of_int (the (PyLong_value arg)))))
      else if peek signature 0 = DBUS_TYPE_UINT16 then
        (case check_number arg (peek signature 0) of
           Inl err \<Rightarrow> Inl err
         | Inr _ \<Rightarrow> Inr (WUInt16 (word_of_int (the (PyLong_value arg)))))
      else if peek signature 0 = DBUS_TYPE_INT32 then
        (case check_number arg (peek signature 0) of
           Inl err \<Rightarrow> Inl err
         | Inr _ \<Rightarrow> Inr (WInt32 (word_of_int (the (PyLong_value arg)))))
      else if peek signature 0 = DBUS_TYPE_UINT32 then
        (case check_number arg (peek signature 0) of
           Inl err \<Rightarrow> Inl err
         | Inr _ \<Rightarrow> Inr (WUInt32 (word_of_int (the (PyLong_value arg)))))
      else if peek signature 0 = DBUS_TYPE_INT64 then
        (case check_number arg (peek signature 0) of
           Inl err \<Rightarrow> Inl err
         | Inr _ \<Rightarrow> Inr (WInt64 (word_of_int (the (PyLong_value arg)))))
      else if peek signature 0 = DBUS_TYPE_UINT64 then
        (case check_number arg (peek signature 0) of
           Inl err \<Rightarrow> Inl err
         | Inr _ \<Rightarrow> Inr (WUInt64 (word_of_int (the (PyLong_value arg)))))
      else if peek signature 0 = DBUS_TYPE_DOUBLE then
        (case PyFloat_AsDouble arg of
           Inl err \<Rightarrow> Inl err
         | Inr dbl \<Rightarrow> Inr (WDouble dbl))
      else if peek signature 0 = DBUS_TYPE_OBJECT_PATH then
        (case arg of
           PyUnicode s \<Rightarrow>
             (case PyUnicode_AsUTF8 s of
                Inl err \<Rightarrow> Inl err
              | Inr str \<Rightarrow>
                  if \<not> check_path (c_str str) then Inl ValueError
                  else Inr (WObjectPath (c_str str)))
         | _ \<Rightarrow> Inl TypeError)
      else if peek signature 0 = DBUS_TYPE_SIGNATURE then
        (case arg of
           PyUnicode s \<Rightarrow>
             (case PyUnicode_AsUTF8 s of
                Inl err \<Rightarrow> Inl err
              | Inr str \<Rightarrow>
                  if \<not> check_signature (c_str str) then Inl ValueError
                  else Inr (WSignature (c_str str)))
         | _ \<Rightarrow> Inl TypeError)
      else if peek signature 0 = DBUS_TYPE_STRING then
        (case arg of
           PyUnicode s \<Rightarrow>
             (case PyUnicode_AsUTF8 s of
                Inl err \<Rightarrow> Inl err
              | Inr str \<Rightarrow> Inr (WString (c_str str)))
         | _ \<Rightarrow> Inl TypeError)
      else if peek signature 0 = DBUS_STRUCT_BEGIN_CHAR then
        (case PySequence_items arg of
           None \<Rightarrow> Inl TypeError
         | Some items \<Rightarrow>
             (case message_append_args (tl signature) items of
                Inl err \<Rightarrow> Inl err
              | Inr ws \<Rightarrow> Inr (WStruct ws)))
      else if peek signature 0 = DBUS_TYPE_ARRAY then
        (if peek signature 1 = DBUS_TYPE_BYTE then
           (case arg of
              PyBytes bs \<Rightarrow>
                (let size = sint (word_of_int (int (length bs)) :: 32 word)
                 in if size < 0 then Inl MemoryError
                    else Inr (WArray (tl signature) (map WByte (take (nat size) bs))))
            | _ \<Rightarrow> Inl TypeError)
         else
           (case (if peek signature 1 = DBUS_DICT_ENTRY_BEGIN_CHAR then
                    (case arg of PyDict kvs \<Rightarrow> Some (PyDict_Items kvs) | _ \<Rightarrow> None)
                  else PySequence_items arg) of
              None \<Rightarrow> Inl TypeError
            | Some parray \<Rightarrow>
                (case message_append_items (tl signature) parray of
                   Inl err \<Rightarrow> Inl err
                 | Inr ws \<Rightarrow> Inr (WArray (tl signature) ws))))
      else if peek signature 0 = DBUS_DICT_ENTRY_BEGIN_CHAR then
        (case PySequence_items arg of
           None \<Rightarrow> Inl TypeError
         | Some items \<Rightarrow>
             (case message_append_args (tl signature) items of
                Inl err \<Rightarrow> Inl err
              | Inr ws \<Rightarrow> Inr (WDictEntry ws)))
      else if peek signature 0 = DBUS_TYPE_VARIANT then
        (case PySequence_items arg of
           None \<Rightarrow> Inl TypeError
         | Some items \<Rightarrow>
             if length items \<noteq> 2 then Inl ValueError
             else
               (case items ! 0 of
                  PyUnicode ptype \<Rightarrow>
                    (case PyUnicode_AsUTF8 ptype of
                       Inl err \<Rightarrow> Inl err
                     | Inr ptr \<Rightarrow>
                         if \<not> check_signature (c_str ptr) then Inl ValueError
                         else
                           (case get_one_full_type (c_str ptr) 0 of
                              None \<Rightarrow> Inl ValueError
                            | Some e \<Rightarrow>
                                if peek (c_str ptr) e \<noteq> NUL then Inl ValueError
                                else
                                  (case message_append_arg (c_str ptr) (items ! 1) of
                                     Inl err \<Rightarrow> Inl err
                                   | Inr w \<Rightarrow> Inr (WVariant (c_str ptr) w))))
                | _ \<Rightarrow> Inl TypeError))
      else Inl Error)"
| "message_append_args signature args =
     (if peek signature 0 \<noteq> NUL then
        (case get_one_full_type signature 0 of
           None \<Rightarrow> Inl Error
         | Some e \<Rightarrow>
             (case args of
                [] \<Rightarrow> Inl TypeError_too_few
              | parg # rest \<Rightarrow>
                  (case message_append_arg (take e signature) parg of
                     Inl err \<Rightarrow> Inl err
                   | Inr w \<Rightarrow>
                       (case message_append_args (skip_end_char (drop e signature)) rest of
                          Inl err \<Rightarrow> Inl err
                        | Inr ws \<Rightarrow> Inr (w # ws)))))
      else if args \<noteq> [] then Inl TypeError_too_many
      else Inr [])"
| "message_append_items signature [] = Inr []"
| "message_append_items signature (pitem # rest) =
     (case message_append_arg signature pitem of
        Inl err \<Rightarrow> Inl err
      | Inr w \<Rightarrow>
          (case message_append_items signature rest of
             Inl err \<Rightarrow> Inl err
           | Inr ws \<Rightarrow> Inr (w # ws)))"
  by pat_completeness auto
termination
proof (relation "measures [
    (\<lambda>x. case x of Inl (sg, arg) \<Rightarrow> pysize arg
                   | Inr (Inl (sg, args)) \<Rightarrow> sum_list (map pysize args)
                   | Inr (Inr (sg, items)) \<Rightarrow> sum_list (map pysize items)),
    (\<lambda>x. case x of Inl (sg, arg) \<Rightarrow> length sg
                   | Inr (Inl (sg, args)) \<Rightarrow> length sg
                   | Inr (Inr (sg, items)) \<Rightarrow> length sg),
    (\<lambda>x. case x of Inl _ \<Rightarrow> 0 | Inr _ \<Rightarrow> 1),
    (\<lambda>x. case x of Inl _ \<Rightarrow> 0
                   | Inr (Inl (sg, args)) \<Rightarrow> length args
                   | Inr (Inr (sg, items)) \<Rightarrow> length items)]", goal_cases)
  case 1
  show ?case by simp
next
  case (2 signature arg items)
  then show ?case
    using pysize_items[of arg items] peek_0_nonNUL[of signature] by auto
next
  case (3 signature arg parray)
  then have c: "(if peek signature 1 = DBUS_DICT_ENTRY_BEGIN_CHAR
        then case arg of PyDict kvs \<Rightarrow> Some (PyDict_Items kvs) | _ \<Rightarrow> None
        else PySequence_items arg) = Some parray"
    and a: "peek signature 0 = DBUS_TYPE_ARRAY"
    by simp_all
  show ?case
  proof (cases "peek signature 1 = DBUS_DICT_ENTRY_BEGIN_CHAR")
    case True
    then obtain kvs where "arg = PyDict kvs" "parray = PyDict_Items kvs"
      using c by (cases arg) auto
    then show ?thesis using pysize_dict_items[of kvs] by simp
  next
    case False
    then have "PySequence_items arg = Some parray" using c by simp
    then show ?thesis
      using pysize_items[of arg parray] peek_0_nonNUL[of signature] a by auto
  qed
next
  case (4 signature arg items)
  then show ?case
    using pysize_items[of arg items] peek_0_nonNUL[of signature] by auto
next
  case (5 signature arg items ptype ptr e)
  then show ?case
    using pysize_second_item[of arg items] by simp
next
  case (6 signature args e parg rest)
  then show ?case by auto
next
  case (7 signature args e parg rest w)
  then show ?case
    using length_skip_end_char[of "drop e signature"] by auto
next
  case (8 signature pitem rest)
  then show ?case by auto
next
  case (9 signature pitem rest w)
  then show ?case by auto
qed

declare message_append_arg.simps [simp del]
declare message_append_args.simps [simp del]

text \<open>
  \<open>message_set_args\<close>: the arguments must be a sequence and the signature must pass
  \<open>_check_signature\<close>; the result is the body of the message, which had no arguments
  before.
\<close>

definition message_set_args :: "string \<Rightarrow> pyobj \<Rightarrow> error + wire list" where
  "message_set_args signature pargs =
     (case PySequence_items pargs of
        None \<Rightarrow> Inl TypeError
      | Some items \<Rightarrow>
          if \<not> check_signature signature then Inl ValueError
          else message_append_args signature items)"

subsection \<open>Range of the fixed-width integers\<close>

lemma check_number_bounds:
  assumes "numeric_bounds c = Some (lo, hi)"
  shows "check_number (PyLong n) c = (if n < lo \<or> hi < n then Inl ValueError else Inr ())"
  using assms
  by (auto simp: numeric_bounds_def check_number_def check_numbers_def split: if_splits)

lemma numeric_bounds_codes:
  assumes "numeric_bounds c = Some (lo, hi)"
  shows "c \<in> set ''yqutnix''"
  using assms by (auto simp: numeric_bounds_def split: if_splits)

lemma message_append_arg_integer:
  assumes "numeric_bounds c = Some (lo, hi)"
  shows "(n < lo \<or> hi < n \<longrightarrow> message_append_arg [c] (PyLong n) = Inl ValueError) \<and>
         (lo \<le> n \<and> n \<le> hi \<longrightarrow> (\<exists>w. message_append_arg [c] (PyLong n) = Inr w))"
proof -
  note cn = check_number_bounds[OF assms, of n]
  from numeric_bounds_codes[OF assms]
  consider "c = CHR ''y''" | "c = CHR ''q''" | "c = CHR ''u''" | "c = CHR ''t''"
    | "c = CHR ''n''" | "c = CHR ''i''" | "c = CHR ''x''"
    by auto
  then show ?thesis
  proof cases
    case 1 then show ?thesis using cn by (subst (1 2) message_append_arg.simps) (simp add: peek_def)
  next
    case 2 then show ?thesis using cn by (subst (1 2) message_append_arg.simps) (simp add: peek_def)
  next
    case 3 then show ?thesis using cn by (subst (1 2) message_append_arg.simps) (simp add: peek_def)
  next
    case 4 then show ?thesis using cn by (subst (1 2) message_append_arg.simps) (simp add: peek_def)
  next
    case 5 then show ?thesis using cn by (subst (1 2) message_append_arg.simps) (simp add: peek_def)
  next
    case 6 then show ?thesis using cn by (subst (1 2) message_append_arg.simps) (simp add: peek_def)
  next
    case 7 then show ?thesis using cn by (subst (1 2) message_append_arg.simps) (simp add: peek_def)
  qed
qed

text \<open>
  C5: for each of the seven fixed-width integer type codes, with the bounds of the
  Numeric Bounds Table, the range check of an integer fails with \<open>ValueError\<close> exactly
  when the integer lies outside the bounds, and so does the encoding of the integer
  against the type code, which succeeds otherwise; encoding 300 against \<open>y\<close>, whose
  bounds are 0 and 255, fails with \<open>ValueError\<close>.
\<close>

theorem check_number_range:
  "(numeric_bounds c = Some (lo, hi) \<longrightarrow>
      check_number (PyLong n) c = (if n < lo \<or> hi < n then Inl ValueError else Inr ()) \<and>
      (n < lo \<or> hi < n \<longrightarrow> message_append_arg [c] (PyLong n) = Inl ValueError) \<and>
      (lo \<le> n \<and> n \<le> hi \<longrightarrow> (\<exists>w. message_append_arg [c] (PyLong n) = Inr w))) \<and>
   numeric_bounds DBUS_TYPE_BYTE = Some (0, 255) \<and>
   message_append_arg ''y'' (PyLong 300) = Inl ValueError \<and>
   message_set_args ''y'' (PyTuple [PyLong 300]) = Inl ValueError"
proof -
  have "numeric_bounds DBUS_TYPE_BYTE = Some (0, 255)"
    by (simp add: numeric_bounds_def)
  moreover have "message_append_arg ''y'' (PyLong 300) = Inl ValueError"
    by code_simp
  moreover have "message_set_args ''y'' (PyTuple [PyLong 300]) = Inl ValueError"
    by code_simp
  ultimately show ?thesis
    using check_number_bounds[of c lo hi n] message_append_arg_integer[of c lo hi n]
    by blast
qed

theorem check_number_range_witness:
  "numeric_bounds DBUS_TYPE_INT16 = Some (- 32768, 32767) \<and>
   (32767 :: int) < 40000 \<and>
   check_number (PyLong 40000) DBUS_TYPE_INT16 = Inl ValueError \<and>
   message_append_arg ''n'' (PyLong 40000) = Inl ValueError \<and>
   (- 32768 :: int) \<le> - 5 \<and> (- 5 :: int) \<le> 32767 \<and>
   check_number (PyLong (- 5)) DBUS_TYPE_INT16 = Inr () \<and>
   (\<exists>w. message_append_arg ''n'' (PyLong (- 5)) = Inr w)"
proof -
  have b: "numeric_bounds DBUS_TYPE_INT16 = Some (- 32768, 32767)"
    by (simp add: numeric_bounds_def)
  from check_number_range[of DBUS_TYPE_INT16 "- 32768" 32767 40000]
    check_number_range[of DBUS_TYPE_INT16 "- 32768" 32767 "- 5"] b
  show ?thesis by simp
qed

subsection \<open>Arity\<close>

text \<open>
  Encoding in lock-step in the words of the specification (section 4.5): each value
  is encoded against its corresponding full type in order; too few or too many
  values is an arity error.
\<close>

fun encode_in_order :: "string list \<Rightarrow> pyobj list \<Rightarrow> error + wire list" where
  "encode_in_order [] [] = Inr []"
| "encode_in_order [] (v # vs) = Inl TypeError_too_many"
| "encode_in_order (t # ts) [] = Inl TypeError_too_few"
| "encode_in_order (t # ts) (v # vs) =
     (case message_append_arg t v of
        Inl err \<Rightarrow> Inl err
      | Inr w \<Rightarrow>
          (case encode_in_order ts vs of
             Inl err \<Rightarrow> Inl err
           | Inr ws \<Rightarrow> Inr (w # ws)))"

lemma render1_first: "\<exists>c cs. render1 t = c # cs \<and> c \<noteq> NUL \<and> c \<noteq> DBUS_STRUCT_END_CHAR \<and> c \<noteq> DBUS_DICT_ENTRY_END_CHAR"
  by (cases t) (simp_all add: type_code_plain)

lemma skip_end_char_render:
  assumes "ts \<noteq> []"
  shows "skip_end_char (render ts @ tail) = render ts @ tail"
proof -
  obtain t ts' where "ts = t # ts'" using assms by (cases ts) auto
  moreover obtain c cs where "render1 t = c # cs" "c \<noteq> DBUS_STRUCT_END_CHAR" "c \<noteq> DBUS_DICT_ENTRY_END_CHAR"
    using render1_first[of t] by blast
  ultimately show ?thesis by (simp add: skip_end_char_def peek_def)
qed

lemma message_append_args_Nil:
  "message_append_args [] items = encode_in_order [] items"
  by (subst message_append_args.simps) (cases items; simp add: peek_def)

lemma message_append_args_render_tail:
  assumes "tail = [] \<or> tail = [DBUS_STRUCT_END_CHAR] \<or> tail = [DBUS_DICT_ENTRY_END_CHAR]"
  shows "ts \<noteq> [] \<Longrightarrow>
    message_append_args (render ts @ tail) items = encode_in_order (map render1 ts) items"
proof (induction ts arbitrary: items)
  case Nil
  then show ?case by simp
next
  case (Cons t ts)
  let ?sig = "render (t # ts) @ tail"
  obtain c cs where c: "render1 t = c # cs" "c \<noteq> NUL"
    using render1_first[of t] by blast
  have pk: "peek ?sig 0 \<noteq> NUL" using c by (simp add: peek_def)
  have g: "get_one_full_type ?sig 0 = Some (length (render1 t))"
    using get_one_full_type_render1[of "[]" t "render ts @ tail"] by simp
  have tk: "take (length (render1 t)) ?sig = render1 t" by simp
  have dr: "drop (length (render1 t)) ?sig = render ts @ tail" by simp
  have rest: "message_append_args (skip_end_char (render ts @ tail)) vs =
      encode_in_order (map render1 ts) vs" for vs
  proof (cases "ts = []")
    case True
    then have "skip_end_char (render ts @ tail) = []"
      using assms by (auto simp: skip_end_char_def peek_def)
    then show ?thesis using True message_append_args_Nil by simp
  next
    case False
    then show ?thesis using skip_end_char_render[OF False, of tail] Cons.IH by simp
  qed
  show ?case
  proof (cases items)
    case Nil
    then show ?thesis using pk g by (subst message_append_args.simps) simp
  next
    case (Cons v vs)
    then show ?thesis
      using pk g rest[of vs]
      by (subst message_append_args.simps) (simp only: tk dr, simp split: sum.splits)
  qed
qed

lemma message_append_args_render:
  "message_append_args (render ts) items = encode_in_order (map render1 ts) items"
proof (cases "ts = []")
  case True
  then show ?thesis using message_append_args_Nil by simp
next
  case False
  from message_append_args_render_tail[of "[]", OF _ False] show ?thesis by simp
qed

lemma encode_in_order_length:
  "length items \<noteq> length types \<Longrightarrow> isl (encode_in_order types items)"
  by (induction types items rule: encode_in_order.induct) (auto split: sum.splits)

lemma message_set_args_in_order_aux:
  assumes "NUL \<notin> set s" "check_signature s" "PySequence_items pargs = Some items"
  shows "\<exists>types. split_signature s = Inr types \<and>
           message_set_args s pargs = encode_in_order types items \<and>
           (length items \<noteq> length types \<longrightarrow> isl (message_set_args s pargs))"
proof -
  obtain ts where ts: "s = render ts"
    using assms(1,2) check_signature_iff[of s] by auto
  have 1: "split_signature s = Inr (map render1 ts)"
    unfolding ts by (rule split_signature_render)
  have 2: "message_set_args s pargs = encode_in_order (map render1 ts) items"
    using assms(2,3) message_append_args_render[of ts items]
    by (simp add: message_set_args_def ts)
  from 1 2 encode_in_order_length[of items "map render1 ts"] show ?thesis by auto
qed

text \<open>
  C4, as stated, fails on the code: the signature \<open>yy\<close> has two top-level full types,
  the sequence \<open>(300,)\<close> has one value, and the encoding fails, but with the range error
  of the first value and not with an arity error: the values are encoded in
  lock-step with the full types, and the arity is tested when the values or the full
  types run out.
\<close>

theorem message_set_args_range_before_arity:
  "check_signature ''yy'' \<and>
   split_signature ''yy'' = Inr [''y'', ''y''] \<and>
   length [PyLong 300] \<noteq> length [''y'', ''y''] \<and>
   message_set_args ''yy'' (PyTuple [PyLong 300]) = Inl ValueError"
  by code_simp

text \<open>
  C4, amended: encoding a sequence of values against a signature that the validator
  accepts encodes each value against its corresponding top-level full type in order,
  fails with the error of the first value that does not encode, and, when no such
  value comes first, fails with an arity error where the values or the full types run
  out; in particular it fails whenever the length of the sequence differs from the
  number of top-level full types. Encoding \<open>(1,)\<close> against \<open>ii\<close> fails with the arity
  error for too few values, and \<open>(1, 2, 3)\<close> against \<open>ii\<close> with the one for too many.
\<close>

theorem message_set_args_in_order:
  "(NUL \<notin> set s \<and> check_signature s \<and> PySequence_items pargs = Some items \<longrightarrow>
      (\<exists>types. split_signature s = Inr types \<and>
         message_set_args s pargs = encode_in_order types items \<and>
         (length items \<noteq> length types \<longrightarrow> isl (message_set_args s pargs)))) \<and>
   message_set_args ''ii'' (PyTuple [PyLong 1]) = Inl TypeError_too_few \<and>
   message_set_args ''ii'' (PyTuple [PyLong 1, PyLong 2, PyLong 3]) = Inl TypeError_too_many"
proof -
  have "message_set_args ''ii'' (PyTuple [PyLong 1]) = Inl TypeError_too_few"
    "message_set_args ''ii'' (PyTuple [PyLong 1, PyLong 2, PyLong 3]) = Inl TypeError_too_many"
    by code_simp+
  then show ?thesis
    using message_set_args_in_order_aux[of s pargs items] by blast
qed

theorem message_set_args_in_order_witness:
  "NUL \<notin> set ''is'' \<and> check_signature ''is'' \<and>
   PySequence_items (PyList [PyLong 7]) = Some [PyLong 7] \<and>
   split_signature ''is'' = Inr [''i'', ''s''] \<and>
   length [PyLong 7] \<noteq> length [''i'', ''s''] \<and>
   message_set_args ''is'' (PyList [PyLong 7]) = encode_in_order [''i'', ''s''] [PyLong 7] \<and>
   isl (message_set_args ''is'' (PyList [PyLong 7]))"
proof -
  have h: "NUL \<notin> set ''is''" "check_signature ''is''"
    "PySequence_items (PyList [PyLong 7]) = Some [PyLong 7]"
    by (simp, code_simp, simp)
  have sp: "split_signature ''is'' = Inr [''i'', ''s'']"
    by code_simp
  from message_set_args_in_order[of "''is''" "PyList [PyLong 7]" "[PyLong 7]"] h sp
  show ?thesis by auto
qed

section \<open>Decoding a dictionary\<close>



lemma PyDict_GetItem_Nil [simp]: "PyDict_GetItem [] k = None"
  by (simp add: PyDict_GetItem_def)

lemma PyDict_GetItem_Cons [simp]:
  "PyDict_GetItem (p # ps) k = (if py_eq (fst p) k then Some (snd p) else PyDict_GetItem ps k)"
  by (simp add: PyDict_GetItem_def)




text \<open>The pairs that the entries of a wire array decode to, in wire order.\<close>

lemma message_read_dict_pairs:
  assumes "map message_read_arg ws = map (\<lambda>(k, v). Inr (PyTuple [k, v])) kvs"
    and "list_all (\<lambda>kv. py_hashable (fst kv)) kvs"
  shows "message_read_dict d ws = Inr (PyDict (fold (\<lambda>(k, v) d. dict_update k v d) kvs d))"
  using assms
proof (induction ws arbitrary: kvs d)
  case Nil
  then show ?case by simp
next
  case (Cons w ws)
  then obtain k v kvs' where kvs: "kvs = (k, v) # kvs'"
    by (cases kvs) auto
  with Cons.prems have w: "message_read_arg w = Inr (PyTuple [k, v])"
    and rest: "map message_read_arg ws = map (\<lambda>(k, v). Inr (PyTuple [k, v])) kvs'"
    and h: "py_hashable k" "list_all (\<lambda>kv. py_hashable (fst kv)) kvs'"
    by auto
  show ?case
    using Cons.IH[OF rest h(2), of "dict_update k v d"] w h(1)
    by (simp add: kvs PyDict_SetItem_def)
qed





section \<open>Round trip of encoding and decoding\<close>

text \<open>
  A value tree that matches a full type (section 3), as the Python object that stands
  for it: a fixed-width integer is an \<open>int\<close> within the bounds of its kind, Bool a
  \<open>bool\<close>, Double a \<open>float\<close>, the text kinds a \<open>str\<close>, a ByteArray \<open>bytes\<close>, an Array a
  \<open>list\<close>, a Dict a \<open>dict\<close> (its keys are hashable and no two of them are equal, as in
  every \<open>dict\<close>), a Struct a \<open>tuple\<close> with one member for each full type, a DictEntry a
  pair, and a Variant the pair of the signature of one full type and a value that
  matches it. No value matches a file descriptor.
\<close>

fun distinct_keys :: "(pyobj \<times> pyobj) list \<Rightarrow> bool" where
  "distinct_keys [] = True"
| "distinct_keys (kv # kvs) =
     (list_all (\<lambda>p. \<not> py_eq (fst kv) (fst p)) kvs \<and> distinct_keys kvs)"

inductive matches :: "full_type \<Rightarrow> pyobj \<Rightarrow> bool" where
  Integer: "numeric_bounds (type_code b) = Some (lo, hi) \<Longrightarrow> lo \<le> n \<Longrightarrow> n \<le> hi \<Longrightarrow>
            matches (Basic b) (PyLong n)"
| Bool: "matches (Basic BOOLEAN) (PyBool b)"
| Double: "matches (Basic DOUBLE) (PyFloat d)"
| String: "matches (Basic STRING) (PyUnicode s)"
| ObjectPath: "matches (Basic OBJECT_PATH) (PyUnicode s)"
| Signature: "matches (Basic SIGNATURE) (PyUnicode s)"
| Variant: "matches t v \<Longrightarrow> matches (Basic VARIANT) (PyTuple [PyUnicode (render1 t), v])"
| ByteArray: "matches (Array (Basic BYTE)) (PyBytes bs)"
| Dict: "distinct_keys kvs \<Longrightarrow>
         list_all (\<lambda>kv. py_hashable (fst kv) \<and>
                        matches (DictEntry ts) (PyTuple [fst kv, snd kv])) kvs \<Longrightarrow>
         matches (Array (DictEntry ts)) (PyDict kvs)"
| Array: "t \<noteq> Basic BYTE \<Longrightarrow> \<forall>ts. t \<noteq> DictEntry ts \<Longrightarrow> list_all (matches t) xs \<Longrightarrow>
          matches (Array t) (PyList xs)"
| Struct: "list_all2 matches ts xs \<Longrightarrow> matches (Struct ts) (PyTuple xs)"
| DictEntry: "matches tk k \<Longrightarrow> matches tv v \<Longrightarrow> matches (DictEntry [tk, tv]) (PyTuple [k, v])"

text \<open>
  The matching value trees that the encoder takes. In addition, every \<open>str\<close> has a
  UTF-8 encoding (it contains no lone surrogate), which does not contain the
  terminator of a C string; the text of an object path is a valid path and the text
  of a signature a valid signature; the signature inside a variant is valid; no
  struct is empty; and a \<open>bytes\<close>, a \<open>list\<close> and a \<open>dict\<close> have fewer than \<open>2 ^ 31\<close> items, which
  the source counts with an \<open>int\<close>.
\<close>

inductive encodable :: "full_type \<Rightarrow> pyobj \<Rightarrow> bool" where
  Integer: "numeric_bounds (type_code b) = Some (lo, hi) \<Longrightarrow> lo \<le> n \<Longrightarrow> n \<le> hi \<Longrightarrow>
            encodable (Basic b) (PyLong n)"
| Bool: "encodable (Basic BOOLEAN) (PyBool b)"
| Double: "encodable (Basic DOUBLE) (PyFloat d)"
| String: "utf8_valid s \<Longrightarrow> NUL \<notin> set s \<Longrightarrow> encodable (Basic STRING) (PyUnicode s)"
| ObjectPath: "utf8_valid s \<Longrightarrow> NUL \<notin> set s \<Longrightarrow> check_path s \<Longrightarrow>
               encodable (Basic OBJECT_PATH) (PyUnicode s)"
| Signature: "utf8_valid s \<Longrightarrow> NUL \<notin> set s \<Longrightarrow> check_signature s \<Longrightarrow>
              encodable (Basic SIGNATURE) (PyUnicode s)"
| Variant: "encodable t v \<Longrightarrow> check_signature (render1 t) \<Longrightarrow>
            encodable (Basic VARIANT) (PyTuple [PyUnicode (render1 t), v])"
| ByteArray: "length bs < 2 ^ 31 \<Longrightarrow> encodable (Array (Basic BYTE)) (PyBytes bs)"
| Dict: "distinct_keys kvs \<Longrightarrow> length kvs < 2 ^ 31 \<Longrightarrow>
         list_all (\<lambda>kv. py_hashable (fst kv) \<and>
                        encodable (DictEntry ts) (PyTuple [fst kv, snd kv])) kvs \<Longrightarrow>
         encodable (Array (DictEntry ts)) (PyDict kvs)"
| Array: "t \<noteq> Basic BYTE \<Longrightarrow> \<forall>ts. t \<noteq> DictEntry ts \<Longrightarrow> length xs < 2 ^ 31 \<Longrightarrow>
          list_all (encodable t) xs \<Longrightarrow> encodable (Array t) (PyList xs)"
| Struct: "ts \<noteq> [] \<Longrightarrow> list_all2 encodable ts xs \<Longrightarrow> encodable (Struct ts) (PyTuple xs)"
| DictEntry: "encodable tk k \<Longrightarrow> encodable tv v \<Longrightarrow>
              encodable (DictEntry [tk, tv]) (PyTuple [k, v])"

lemma encodable_matches: "encodable t v \<Longrightarrow> matches t v"
proof (induction rule: encodable.induct)
  case (Dict kvs ts)
  from Dict(3) have "list_all (\<lambda>kv. py_hashable (fst kv) \<and>
      matches (DictEntry ts) (PyTuple [fst kv, snd kv])) kvs"
    by (simp add: list_all_iff)
  with Dict(1) show ?case by (rule matches.Dict)
next
  case (Array t xs)
  from Array(4) have "list_all (matches t) xs" by (simp add: list_all_iff)
  with Array(1,2) show ?case by (rule matches.Array)
next
  case (Struct ts xs)
  from Struct(2) have "list_all2 matches ts xs"
    by (rule list_all2_mono) simp
  then show ?case by (rule matches.Struct)
qed (auto intro: matches.intros)

text \<open>
  Equality of values up to the order of the items of a \<open>dict\<close>, which the round trip
  need not preserve.
\<close>

inductive same_value :: "pyobj \<Rightarrow> pyobj \<Rightarrow> bool" where
  NoneType: "same_value PyNone PyNone"
| Bool: "same_value (PyBool b) (PyBool b)"
| Long: "same_value (PyLong n) (PyLong n)"
| Float: "same_value (PyFloat d) (PyFloat d)"
| Unicode: "same_value (PyUnicode s) (PyUnicode s)"
| Bytes: "same_value (PyBytes bs) (PyBytes bs)"
| Tuple: "list_all2 same_value xs ys \<Longrightarrow> same_value (PyTuple xs) (PyTuple ys)"
| List: "list_all2 same_value xs ys \<Longrightarrow> same_value (PyList xs) (PyList ys)"
| Dict: "list_all2 (\<lambda>p q. same_value (fst p) (fst q) \<and> same_value (snd p) (snd q)) kvs kvs' \<Longrightarrow>
         mset kvs' = mset kvs'' \<Longrightarrow> same_value (PyDict kvs) (PyDict kvs'')"

lemma same_value_refl: "same_value v v"
proof (induction v)
  case (PyTuple xs)
  then show ?case by (auto intro!: same_value.Tuple list.rel_refl_strong)
next
  case (PyList xs)
  then show ?case by (auto intro!: same_value.List list.rel_refl_strong)
next
  case (PyDict kvs)
  have "list_all2 (\<lambda>p q. same_value (fst p) (fst q) \<and> same_value (snd p) (snd q)) kvs kvs"
  proof (rule list.rel_refl_strong)
    fix p
    assume p: "p \<in> set kvs"
    obtain a b where ab: "p = (a, b)" by (cases p)
    have "same_value a a" using PyDict(1)[of "(a, b)" a] p by (simp add: ab)
    moreover have "same_value b b" using PyDict(2)[of "(a, b)" b] p by (simp add: ab)
    ultimately show "same_value (fst p) (fst p) \<and> same_value (snd p) (snd p)"
      by (simp add: ab)
  qed
  then show ?case by (rule same_value.Dict) simp
qed (auto intro: same_value.intros)

subsection \<open>Scalars\<close>

lemma uint_word_of_int_range:
  "0 \<le> n \<Longrightarrow> n < 2 ^ LENGTH('a) \<Longrightarrow> uint (word_of_int n :: 'a::len word) = n"
  by (simp add: unsigned_of_int take_bit_int_eq_self)

lemma sint_word_of_int_range:
  "- (2 ^ (LENGTH('a) - 1)) \<le> n \<Longrightarrow> n < 2 ^ (LENGTH('a) - 1) \<Longrightarrow>
   sint (word_of_int n :: 'a::len word) = n"
  by (simp add: sint_sbintrunc' signed_take_bit_int_eq_self)

lemma check_number_ok:
  assumes "check_number (PyLong n) c = Inr u" "numeric_bounds c = Some (lo, hi)"
  shows "lo \<le> n \<and> n \<le> hi"
  using assms check_number_bounds[OF assms(2), of n] by (auto split: if_splits)

lemma roundtrip_byte:
  assumes "message_append_arg (render1 (Basic BYTE)) (PyLong n) = Inr w"
  shows "message_read_arg w = Inr (PyLong n)"
proof -
  have b: "numeric_bounds DBUS_TYPE_BYTE = Some (0, 2 ^ 8 - 1)" by (simp add: numeric_bounds_def)
  from assms obtain u where "check_number (PyLong n) DBUS_TYPE_BYTE = Inr u"
    and w: "w = WByte (word_of_int n)"
    by (subst (asm) message_append_arg.simps) (auto simp: peek_def split: sum.splits)
  from check_number_ok[OF this(1) b] show ?thesis
    unfolding w using uint_word_of_int_range[of n, where 'a=8] by simp
qed

lemma roundtrip_uint16:
  assumes "message_append_arg (render1 (Basic UINT16)) (PyLong n) = Inr w"
  shows "message_read_arg w = Inr (PyLong n)"
proof -
  have b: "numeric_bounds DBUS_TYPE_UINT16 = Some (0, 2 ^ 16 - 1)" by (simp add: numeric_bounds_def)
  from assms obtain u where "check_number (PyLong n) DBUS_TYPE_UINT16 = Inr u"
    and w: "w = WUInt16 (word_of_int n)"
    by (subst (asm) message_append_arg.simps) (auto simp: peek_def split: sum.splits)
  from check_number_ok[OF this(1) b] show ?thesis
    unfolding w using uint_word_of_int_range[of n, where 'a=16] by simp
qed

lemma roundtrip_uint32:
  assumes "message_append_arg (render1 (Basic UINT32)) (PyLong n) = Inr w"
  shows "message_read_arg w = Inr (PyLong n)"
proof -
  have b: "numeric_bounds DBUS_TYPE_UINT32 = Some (0, 2 ^ 32 - 1)" by (simp add: numeric_bounds_def)
  from assms obtain u where "check_number (PyLong n) DBUS_TYPE_UINT32 = Inr u"
    and w: "w = WUInt32 (word_of_int n)"
    by (subst (asm) message_append_arg.simps) (auto simp: peek_def split: sum.splits)
  from check_number_ok[OF this(1) b] show ?thesis
    unfolding w using uint_word_of_int_range[of n, where 'a=32] by simp
qed

lemma roundtrip_uint64:
  assumes "message_append_arg (render1 (Basic UINT64)) (PyLong n) = Inr w"
  shows "message_read_arg w = Inr (PyLong n)"
proof -
  have b: "numeric_bounds DBUS_TYPE_UINT64 = Some (0, 2 ^ 64 - 1)" by (simp add: numeric_bounds_def)
  from assms obtain u where "check_number (PyLong n) DBUS_TYPE_UINT64 = Inr u"
    and w: "w = WUInt64 (word_of_int n)"
    by (subst (asm) message_append_arg.simps) (auto simp: peek_def split: sum.splits)
  from check_number_ok[OF this(1) b] show ?thesis
    unfolding w using uint_word_of_int_range[of n, where 'a=64] by simp
qed

lemma roundtrip_int16:
  assumes "message_append_arg (render1 (Basic INT16)) (PyLong n) = Inr w"
  shows "message_read_arg w = Inr (PyLong n)"
proof -
  have b: "numeric_bounds DBUS_TYPE_INT16 = Some (- (2 ^ 15), 2 ^ 15 - 1)" by (simp add: numeric_bounds_def)
  from assms obtain u where "check_number (PyLong n) DBUS_TYPE_INT16 = Inr u"
    and w: "w = WInt16 (word_of_int n)"
    by (subst (asm) message_append_arg.simps) (auto simp: peek_def split: sum.splits)
  from check_number_ok[OF this(1) b] show ?thesis
    unfolding w using sint_word_of_int_range[of n, where 'a=16] by simp
qed

lemma roundtrip_int32:
  assumes "message_append_arg (render1 (Basic INT32)) (PyLong n) = Inr w"
  shows "message_read_arg w = Inr (PyLong n)"
proof -
  have b: "numeric_bounds DBUS_TYPE_INT32 = Some (- (2 ^ 31), 2 ^ 31 - 1)" by (simp add: numeric_bounds_def)
  from assms obtain u where "check_number (PyLong n) DBUS_TYPE_INT32 = Inr u"
    and w: "w = WInt32 (word_of_int n)"
    by (subst (asm) message_append_arg.simps) (auto simp: peek_def split: sum.splits)
  from check_number_ok[OF this(1) b] show ?thesis
    unfolding w using sint_word_of_int_range[of n, where 'a=32] by simp
qed

lemma roundtrip_int64:
  assumes "message_append_arg (render1 (Basic INT64)) (PyLong n) = Inr w"
  shows "message_read_arg w = Inr (PyLong n)"
proof -
  have b: "numeric_bounds DBUS_TYPE_INT64 = Some (- (2 ^ 63), 2 ^ 63 - 1)" by (simp add: numeric_bounds_def)
  from assms obtain u where "check_number (PyLong n) DBUS_TYPE_INT64 = Inr u"
    and w: "w = WInt64 (word_of_int n)"
    by (subst (asm) message_append_arg.simps) (auto simp: peek_def split: sum.splits)
  from check_number_ok[OF this(1) b] show ?thesis
    unfolding w using sint_word_of_int_range[of n, where 'a=64] by simp
qed


lemma roundtrip_integer:
  assumes "numeric_bounds (type_code b) = Some (lo, hi)" "lo \<le> n" "n \<le> hi"
  shows "\<exists>w. message_append_arg (render1 (Basic b)) (PyLong n) = Inr w \<and>
             message_read_arg w = Inr (PyLong n)"
proof -
  from message_append_arg_integer[OF assms(1), of n] assms(2,3)
  obtain w where w: "message_append_arg (render1 (Basic b)) (PyLong n) = Inr w"
    by auto
  have "message_read_arg w = Inr (PyLong n)"
  proof (cases b)
    case BYTE with w show ?thesis by (simp only: roundtrip_byte)
  next
    case UINT16 with w show ?thesis by (simp only: roundtrip_uint16)
  next
    case UINT32 with w show ?thesis by (simp only: roundtrip_uint32)
  next
    case UINT64 with w show ?thesis by (simp only: roundtrip_uint64)
  next
    case INT16 with w show ?thesis by (simp only: roundtrip_int16)
  next
    case INT32 with w show ?thesis by (simp only: roundtrip_int32)
  next
    case INT64 with w show ?thesis by (simp only: roundtrip_int64)
  qed (use assms(1) in \<open>simp_all add: numeric_bounds_def\<close>)
  with w show ?thesis by blast
qed

lemma message_append_arg_Boolean:
  "message_append_arg (render1 (Basic BOOLEAN)) (PyBool b) = Inr (WBoolean (if b then 1 else 0))"
  by (subst message_append_arg.simps) (simp add: peek_def)

lemma message_append_arg_Double:
  "message_append_arg (render1 (Basic DOUBLE)) (PyFloat d) = Inr (WDouble d)"
  by (subst message_append_arg.simps) (simp add: peek_def)

lemma c_str_id: "NUL \<notin> set s \<Longrightarrow> c_str s = s"
  by (auto simp: c_str_def)

lemma message_append_arg_String:
  "utf8_valid s \<Longrightarrow> NUL \<notin> set s \<Longrightarrow>
   message_append_arg (render1 (Basic STRING)) (PyUnicode s) = Inr (WString s)"
  by (subst message_append_arg.simps) (simp add: peek_def c_str_id PyUnicode_AsUTF8_def)

lemma message_append_arg_ObjectPath:
  "utf8_valid s \<Longrightarrow> NUL \<notin> set s \<Longrightarrow> check_path s \<Longrightarrow>
   message_append_arg (render1 (Basic OBJECT_PATH)) (PyUnicode s) = Inr (WObjectPath s)"
  by (subst message_append_arg.simps) (simp add: peek_def c_str_id PyUnicode_AsUTF8_def)

lemma message_append_arg_Signature:
  "utf8_valid s \<Longrightarrow> NUL \<notin> set s \<Longrightarrow> check_signature s \<Longrightarrow>
   message_append_arg (render1 (Basic SIGNATURE)) (PyUnicode s) = Inr (WSignature s)"
  by (subst message_append_arg.simps) (simp add: peek_def c_str_id PyUnicode_AsUTF8_def)

lemma wire_bytes_WByte: "wire_bytes (map WByte bs) = bs"
  by (induction bs) simp_all

lemma message_append_arg_ByteArray:
  assumes "length bs < 2 ^ 31"
  shows "message_append_arg (render1 (Array (Basic BYTE))) (PyBytes bs) =
     Inr (WArray (render1 (Basic BYTE)) (map WByte bs))"
proof -
  have "sint (word_of_int (int (length bs)) :: 32 word) = int (length bs)"
    using assms by (intro sint_word_of_int_range) simp_all
  then show ?thesis
    by (subst message_append_arg.simps) (simp add: peek_def)
qed

subsection \<open>Containers\<close>

lemma message_append_items_round_trip:
  "list_all (\<lambda>x. \<exists>w. message_append_arg sg x = Inr w \<and> message_read_arg w = Inr x) xs \<Longrightarrow>
   \<exists>ws. message_append_items sg xs = Inr ws \<and> map message_read_arg ws = map Inr xs"
  by (induction xs) auto

lemma encode_in_order_round_trip:
  "list_all2 (\<lambda>t x. \<exists>w. message_append_arg (render1 t) x = Inr w \<and>
                         message_read_arg w = Inr x) ts xs \<Longrightarrow>
   \<exists>ws. encode_in_order (map render1 ts) xs = Inr ws \<and> map message_read_arg ws = map Inr xs"
  by (induction rule: list_all2_induct) auto

lemma message_read_args_map:
  "map message_read_arg ws = map Inr xs \<Longrightarrow> message_read_args ws = Inr xs"
proof (induction ws arbitrary: xs)
  case Nil
  then show ?case by simp
next
  case (Cons w ws)
  then obtain x xs' where "xs = x # xs'" by (cases xs) auto
  with Cons show ?case by auto
qed

lemma message_read_list_map:
  "map message_read_arg ws = map Inr xs \<Longrightarrow> message_read_list l ws = Inr (PyList (l @ xs))"
proof (induction ws arbitrary: xs l)
  case Nil
  then show ?case by simp
next
  case (Cons w ws)
  then obtain x xs' where xs: "xs = x # xs'" by (cases xs) auto
  with Cons.prems have "message_read_arg w = Inr x" "map message_read_arg ws = map Inr xs'"
    by simp_all
  with Cons.IH[of xs' "l @ [x]"] show ?case by (simp add: xs)
qed

lemma dict_update_new:
  "list_all (\<lambda>p. \<not> py_eq (fst p) k) d \<Longrightarrow> dict_update k v d = d @ [(k, v)]"
  by (induction d) auto

lemma fold_dict_update_distinct:
  "distinct_keys kvs \<Longrightarrow> list_all (\<lambda>p. list_all (\<lambda>q. \<not> py_eq (fst p) (fst q)) kvs) d \<Longrightarrow>
   fold (\<lambda>(k, v) d. dict_update k v d) kvs d = d @ kvs"
proof (induction kvs arbitrary: d)
  case Nil
  then show ?case by simp
next
  case (Cons kv kvs)
  obtain k v where kv: "kv = (k, v)" by (cases kv)
  have "list_all (\<lambda>p. \<not> py_eq (fst p) k) d"
    using Cons.prems(2) by (simp add: kv list_all_iff)
  then have u: "dict_update k v d = d @ [(k, v)]" by (rule dict_update_new)
  have "list_all (\<lambda>p. list_all (\<lambda>q. \<not> py_eq (fst p) (fst q)) kvs) (d @ [(k, v)])"
    using Cons.prems by (simp add: kv list_all_iff)
  with Cons.prems(1) have "fold (\<lambda>(k, v) d. dict_update k v d) kvs (d @ [(k, v)]) =
      (d @ [(k, v)]) @ kvs"
    by (intro Cons.IH) simp_all
  then show ?case by (simp add: kv u)
qed

lemma message_append_arg_Struct:
  "message_append_arg (render1 (Struct ts)) v =
     (case PySequence_items v of
        None \<Rightarrow> Inl TypeError
      | Some items \<Rightarrow>
          (case message_append_args (render ts @ [DBUS_STRUCT_END_CHAR]) items of
             Inl err \<Rightarrow> Inl err
           | Inr ws \<Rightarrow> Inr (WStruct ws)))"
  by (subst message_append_arg.simps)
    (simp add: peek_def cong del: option.case_cong_weak sum.case_cong_weak)

lemma message_append_arg_DictEntry:
  "message_append_arg (render1 (DictEntry ts)) v =
     (case PySequence_items v of
        None \<Rightarrow> Inl TypeError
      | Some items \<Rightarrow>
          (case message_append_args (render ts @ [DBUS_DICT_ENTRY_END_CHAR]) items of
             Inl err \<Rightarrow> Inl err
           | Inr ws \<Rightarrow> Inr (WDictEntry ws)))"
  by (subst message_append_arg.simps)
    (simp add: peek_def cong del: option.case_cong_weak sum.case_cong_weak)

lemma message_append_arg_Array_dict:
  "message_append_arg (render1 (Array (DictEntry ts))) (PyDict kvs) =
     (case message_append_items (render1 (DictEntry ts)) (PyDict_Items kvs) of
        Inl err \<Rightarrow> Inl err
      | Inr ws \<Rightarrow> Inr (WArray (render1 (DictEntry ts)) ws))"
  by (subst message_append_arg.simps)
    (simp add: peek_def cong del: option.case_cong_weak sum.case_cong_weak)

lemma render1_not_byte: "t \<noteq> Basic BYTE \<Longrightarrow> peek (render1 t) 0 \<noteq> DBUS_TYPE_BYTE"
proof (cases t)
  case (Basic b)
  assume "t \<noteq> Basic BYTE"
  with Basic show ?thesis by (cases b) (simp_all add: peek_def)
qed (simp_all add: peek_def)

lemma render1_not_dict_entry:
  "\<forall>ts. t \<noteq> DictEntry ts \<Longrightarrow> peek (render1 t) 0 \<noteq> DBUS_DICT_ENTRY_BEGIN_CHAR"
  by (cases t) (simp_all add: peek_def type_code_plain)

lemma message_append_arg_Array_list:
  assumes "t \<noteq> Basic BYTE" "\<forall>ts. t \<noteq> DictEntry ts"
  shows "message_append_arg (render1 (Array t)) (PyList xs) =
     (case message_append_items (render1 t) xs of
        Inl err \<Rightarrow> Inl err
      | Inr ws \<Rightarrow> Inr (WArray (render1 t) ws))"
proof -
  have "peek (DBUS_TYPE_ARRAY # render1 t) 1 = peek (render1 t) 0"
    by (simp add: peek_def)
  then have "peek (DBUS_TYPE_ARRAY # render1 t) 1 \<noteq> DBUS_TYPE_BYTE"
    "peek (DBUS_TYPE_ARRAY # render1 t) 1 \<noteq> DBUS_DICT_ENTRY_BEGIN_CHAR"
    using render1_not_byte[OF assms(1)] render1_not_dict_entry[OF assms(2)] by simp_all
  moreover have "peek (DBUS_TYPE_ARRAY # render1 t) 0 = DBUS_TYPE_ARRAY"
    by (simp add: peek_def)
  ultimately show ?thesis
    by (subst message_append_arg.simps)
      (simp del: One_nat_def cong del: option.case_cong_weak sum.case_cong_weak)
qed

lemma message_append_arg_Variant:
  assumes "check_signature (render1 t)"
  shows "message_append_arg (render1 (Basic VARIANT)) (PyTuple [PyUnicode (render1 t), v]) =
     (case message_append_arg (render1 t) v of
        Inl err \<Rightarrow> Inl err
      | Inr w \<Rightarrow> Inr (WVariant (render1 t) w))"
proof -
  have c: "c_str (render1 t) = render1 t"
    using NUL_notin_render1[of t] by (rule c_str_id)
  have u: "PyUnicode_AsUTF8 (render1 t) = Inr (render1 t)"
    using utf8_valid_ascii[of "render1 t"] render1_ascii[of _ t]
    by (simp add: PyUnicode_AsUTF8_def)
  have g: "get_one_full_type (render1 t) 0 = Some (length (render1 t))"
    using get_one_full_type_render1[of "[]" t "[]"] by simp
  have p: "peek (render1 t) (length (render1 t)) = NUL"
    by (simp add: peek_def)
  show ?thesis
    by (subst message_append_arg.simps)
      (simp add: peek_def[of "[DBUS_TYPE_VARIANT]"] u c g p assms
         cong del: option.case_cong_weak sum.case_cong_weak)
qed

subsection \<open>Round trip of one value\<close>

lemma encodable_round_trip:
  "encodable t v \<Longrightarrow>
   \<exists>w. message_append_arg (render1 t) v = Inr w \<and> message_read_arg w = Inr v"
proof (induction rule: encodable.induct)
  case (Integer b lo hi n)
  then show ?case by (rule roundtrip_integer)
next
  case (Bool b)
  show ?case unfolding message_append_arg_Boolean by simp
next
  case (Double d)
  show ?case unfolding message_append_arg_Double by simp
next
  case (String s)
  then show ?case using message_append_arg_String[of s] by simp
next
  case (ObjectPath s)
  then show ?case using message_append_arg_ObjectPath[of s] by simp
next
  case (Signature s)
  then show ?case using message_append_arg_Signature[of s] by simp
next
  case (Variant t v)
  from Variant.IH obtain w where w: "message_append_arg (render1 t) v = Inr w"
    and r: "message_read_arg w = Inr v" by blast
  have "message_append_arg (render1 (Basic VARIANT)) (PyTuple [PyUnicode (render1 t), v]) =
      Inr (WVariant (render1 t) w)"
    unfolding message_append_arg_Variant[OF Variant.hyps(2)] w by simp
  moreover have "message_read_arg (WVariant (render1 t) w) =
      Inr (PyTuple [PyUnicode (render1 t), v])"
    by (simp add: r)
  ultimately show ?case by blast
next
  case (ByteArray bs)
  have "message_read_arg (WArray (render1 (Basic BYTE)) (map WByte bs)) = Inr (PyBytes bs)"
    by (simp add: peek_def wire_bytes_WByte)
  then show ?case unfolding message_append_arg_ByteArray[OF ByteArray] by blast
next
  case (Dict kvs ts)
  let ?sg = "render1 (DictEntry ts)"
  from Dict.IH have h: "list_all (\<lambda>kv. py_hashable (fst kv)) kvs"
    by (simp add: list_all_iff)
  from Dict.IH
  have "list_all (\<lambda>x. \<exists>w. message_append_arg ?sg x = Inr w \<and> message_read_arg w = Inr x)
          (PyDict_Items kvs)"
    by (simp add: list_all_iff PyDict_Items_def split_def)
  from message_append_items_round_trip[OF this]
  obtain ws where ws: "message_append_items ?sg (PyDict_Items kvs) = Inr ws"
    and r: "map message_read_arg ws = map Inr (PyDict_Items kvs)" by blast
  have r': "map message_read_arg ws = map (\<lambda>(k, v). Inr (PyTuple [k, v])) kvs"
    unfolding r by (simp add: PyDict_Items_def split_def)
  have "message_read_dict [] ws = Inr (PyDict kvs)"
    using message_read_dict_pairs[OF r' h, of "[]"] fold_dict_update_distinct[of kvs "[]"]
      Dict.hyps(1)
    by simp
  moreover have "peek ?sg 0 = DBUS_DICT_ENTRY_BEGIN_CHAR" by (simp add: peek_def)
  ultimately have "message_read_arg (WArray ?sg ws) = Inr (PyDict kvs)" by simp
  moreover have "message_append_arg (render1 (Array (DictEntry ts))) (PyDict kvs) =
      Inr (WArray ?sg ws)"
    unfolding message_append_arg_Array_dict ws by simp
  ultimately show ?case by blast
next
  case (Array t xs)
  from Array.IH
  have "list_all (\<lambda>x. \<exists>w. message_append_arg (render1 t) x = Inr w \<and>
          message_read_arg w = Inr x) xs"
    by (simp add: list_all_iff)
  from message_append_items_round_trip[OF this]
  obtain ws where ws: "message_append_items (render1 t) xs = Inr ws"
    and r: "map message_read_arg ws = map Inr xs" by blast
  have "message_read_list [] ws = Inr (PyList xs)"
    using message_read_list_map[OF r, of "[]"] by simp
  then have "message_read_arg (WArray (render1 t) ws) = Inr (PyList xs)"
    using render1_not_byte[OF Array.hyps(1)] render1_not_dict_entry[OF Array.hyps(2)]
    by simp
  moreover have "message_append_arg (render1 (Array t)) (PyList xs) =
      Inr (WArray (render1 t) ws)"
    unfolding message_append_arg_Array_list[OF Array.hyps(1,2)] ws by simp
  ultimately show ?case by blast
next
  case (Struct ts xs)
  from Struct.IH
  have "list_all2 (\<lambda>t x. \<exists>w. message_append_arg (render1 t) x = Inr w \<and>
          message_read_arg w = Inr x) ts xs"
    by (rule list_all2_mono) simp
  from encode_in_order_round_trip[OF this]
  obtain ws where ws: "encode_in_order (map render1 ts) xs = Inr ws"
    and r: "map message_read_arg ws = map Inr xs" by blast
  have a: "message_append_args (render ts @ [DBUS_STRUCT_END_CHAR]) xs = Inr ws"
    using message_append_args_render_tail[of "[DBUS_STRUCT_END_CHAR]" ts xs] Struct.hyps(1) ws
    by simp
  have "message_append_arg (render1 (Struct ts)) (PyTuple xs) = Inr (WStruct ws)"
    unfolding message_append_arg_Struct by (simp add: a)
  moreover have "message_read_arg (WStruct ws) = Inr (PyTuple xs)"
    using message_read_args_map[OF r] by simp
  ultimately show ?case by blast
next
  case (DictEntry tk k tv v)
  from DictEntry.IH obtain wk wv where
    wk: "message_append_arg (render1 tk) k = Inr wk" "message_read_arg wk = Inr k" and
    wv: "message_append_arg (render1 tv) v = Inr wv" "message_read_arg wv = Inr v"
    by blast
  have a: "message_append_args (render [tk, tv] @ [DBUS_DICT_ENTRY_END_CHAR]) [k, v] =
      Inr [wk, wv]"
    using message_append_args_render_tail[of "[DBUS_DICT_ENTRY_END_CHAR]" "[tk, tv]" "[k, v]"]
      wk(1) wv(1)
    by simp
  have "message_append_arg (render1 (DictEntry [tk, tv])) (PyTuple [k, v]) =
      Inr (WDictEntry [wk, wv])"
    unfolding message_append_arg_DictEntry using a by simp
  moreover have "message_read_arg (WDictEntry [wk, wv]) = Inr (PyTuple [k, v])"
    by (simp add: wk(2) wv(2))
  ultimately show ?case by blast
qed

subsection \<open>Round trip of a message body\<close>

text \<open>
  C1, as stated, fails on the code. The validator accepts the empty struct \<open>()\<close>, the
  empty tuple matches it, and encoding fails: \<open>message_append_args\<close> is entered at the
  closer, which \<open>get_one_full_type\<close> passes as a full type, with no value left for it.
  A \<open>str\<close> that contains U+0000 matches \<open>s\<close>, is encoded without an error as the C
  string that \<open>PyUnicode_AsUTF8\<close> gives to libdbus, which ends at the terminator, and is
  decoded as the text before it. And a \<open>str\<close> that contains a lone surrogate (here
  U+D800) matches \<open>s\<close> and is not encoded: \<open>PyUnicode_AsUTF8\<close> fails.
\<close>

theorem message_set_args_round_trip_fails:
  "check_signature ''()'' \<and> matches (Struct []) (PyTuple []) \<and>
   message_set_args ''()'' (PyTuple [PyTuple []]) = Inl TypeError_too_few \<and>
   check_signature ''s'' \<and> matches (Basic STRING) (PyUnicode [CHR ''a'', NUL, CHR ''b'']) \<and>
   message_set_args ''s'' (PyTuple [PyUnicode [CHR ''a'', NUL, CHR ''b'']]) =
     Inr [WString ''a''] \<and>
   message_get_args [WString ''a''] = Inr (PyTuple [PyUnicode ''a'']) \<and>
   matches (Basic STRING) (PyUnicode [CHR 0xED, CHR 0xA0, CHR 0x80]) \<and>
   message_set_args ''s'' (PyTuple [PyUnicode [CHR 0xED, CHR 0xA0, CHR 0x80]]) =
     Inl UnicodeEncodeError"
proof -
  have "matches (Struct []) (PyTuple [])"
    by (rule matches.Struct) simp
  moreover have "matches (Basic STRING) (PyUnicode [CHR ''a'', NUL, CHR ''b''])"
    "matches (Basic STRING) (PyUnicode [CHR 0xED, CHR 0xA0, CHR 0x80])"
    by (rule matches.String)+
  moreover have "check_signature ''()''" "check_signature ''s''"
    by code_simp+
  moreover have "message_set_args ''()'' (PyTuple [PyTuple []]) = Inl TypeError_too_few"
    by code_simp
  moreover have "message_set_args ''s'' (PyTuple [PyUnicode [CHR ''a'', NUL, CHR ''b'']]) =
      Inr [WString ''a'']"
    by code_simp
  moreover have "message_get_args [WString ''a''] = Inr (PyTuple [PyUnicode ''a''])"
    by (simp add: message_get_args_def)
  moreover have "message_set_args ''s'' (PyTuple [PyUnicode [CHR 0xED, CHR 0xA0, CHR 0x80]]) =
      Inl UnicodeEncodeError"
    by code_simp
  ultimately show ?thesis by blast
qed

text \<open>
  C1, amended: let a signature accepted by the validator be the rendering of the full
  types \<open>ts\<close> (every accepted signature is one, lemma \<open>check_signature_iff\<close>), and let the
  values \<open>vs\<close> match \<open>ts\<close> one by one as value trees that the encoder takes (\<open>encodable\<close>:
  integers within the bounds of their kind; every \<open>str\<close> with a UTF-8 encoding, that
  is without a lone surrogate, and without U+0000; valid object paths and
  signatures; valid signatures inside variants; no empty struct; \<open>bytes\<close>, lists and
  dicts of fewer than \<open>2 ^ 31\<close> items). Then, every call of libdbus being taken to
  succeed, \<open>message_set_args\<close> succeeds on the sequence \<open>vs\<close>, and \<open>message_get_args\<close> on the
  body it produced returns a tuple of the same values in the same order, up to the
  order of the items of dicts.
\<close>

theorem message_set_args_round_trip:
  assumes "check_signature (render ts)" "list_all2 encodable ts vs"
    "PySequence_items pargs = Some vs"
  shows "\<exists>body r. message_set_args (render ts) pargs = Inr body \<and>
                  message_get_args body = Inr r \<and> same_value (PyTuple vs) r"
proof -
  from assms(2)
  have "list_all2 (\<lambda>t x. \<exists>w. message_append_arg (render1 t) x = Inr w \<and>
          message_read_arg w = Inr x) ts vs"
    by (rule list_all2_mono) (rule encodable_round_trip)
  from encode_in_order_round_trip[OF this]
  obtain ws where ws: "encode_in_order (map render1 ts) vs = Inr ws"
    and r: "map message_read_arg ws = map Inr vs" by blast
  have "message_set_args (render ts) pargs = Inr ws"
    using assms(1,3) ws by (simp add: message_set_args_def message_append_args_render)
  moreover have "message_get_args ws = Inr (PyTuple vs)"
    using message_read_args_map[OF r] by (simp add: message_get_args_def)
  moreover have "same_value (PyTuple vs) (PyTuple vs)" by (rule same_value_refl)
  ultimately show ?thesis by blast
qed

theorem message_set_args_round_trip_witness:
  "check_signature
     (render [Array (DictEntry [Basic INT32, Basic STRING]), Basic VARIANT,
              Struct [Basic INT32, Basic STRING], Array (Basic BYTE)]) \<and>
   list_all2 encodable
     [Array (DictEntry [Basic INT32, Basic STRING]), Basic VARIANT,
      Struct [Basic INT32, Basic STRING], Array (Basic BYTE)]
     [PyDict [(PyLong 1, PyUnicode ''a''), (PyLong 2, PyUnicode ''b'')],
      PyTuple [PyUnicode ''i'', PyLong 42], PyTuple [PyLong 1, PyUnicode ''x''],
      PyBytes [1, 2]] \<and>
   PySequence_items
     (PyTuple [PyDict [(PyLong 1, PyUnicode ''a''), (PyLong 2, PyUnicode ''b'')],
               PyTuple [PyUnicode ''i'', PyLong 42], PyTuple [PyLong 1, PyUnicode ''x''],
               PyBytes [1, 2]]) =
     Some [PyDict [(PyLong 1, PyUnicode ''a''), (PyLong 2, PyUnicode ''b'')],
           PyTuple [PyUnicode ''i'', PyLong 42], PyTuple [PyLong 1, PyUnicode ''x''],
           PyBytes [1, 2]] \<and>
   (\<exists>body r.
      message_set_args ''a{is}v(is)ay''
        (PyTuple [PyDict [(PyLong 1, PyUnicode ''a''), (PyLong 2, PyUnicode ''b'')],
                  PyTuple [PyUnicode ''i'', PyLong 42], PyTuple [PyLong 1, PyUnicode ''x''],
                  PyBytes [1, 2]]) = Inr body \<and>
      message_get_args body = Inr r \<and>
      same_value
        (PyTuple [PyDict [(PyLong 1, PyUnicode ''a''), (PyLong 2, PyUnicode ''b'')],
                  PyTuple [PyUnicode ''i'', PyLong 42], PyTuple [PyLong 1, PyUnicode ''x''],
                  PyBytes [1, 2]]) r)"
proof -
  let ?ts = "[Array (DictEntry [Basic INT32, Basic STRING]), Basic VARIANT,
              Struct [Basic INT32, Basic STRING], Array (Basic BYTE)]"
  let ?vs = "[PyDict [(PyLong 1, PyUnicode ''a''), (PyLong 2, PyUnicode ''b'')],
              PyTuple [PyUnicode ''i'', PyLong 42], PyTuple [PyLong 1, PyUnicode ''x''],
              PyBytes [1, 2]]"
  have r: "render ?ts = ''a{is}v(is)ay''" by simp
  have c: "check_signature (render ?ts)" unfolding r by code_simp
  have i: "encodable (Basic INT32) (PyLong 1)" "encodable (Basic INT32) (PyLong 2)"
    "encodable (Basic INT32) (PyLong 42)"
    by (rule encodable.Integer[of _ "- (2 ^ 31)" "2 ^ 31 - 1"];
        simp add: numeric_bounds_def)+
  have s: "encodable (Basic STRING) (PyUnicode ''a'')"
    "encodable (Basic STRING) (PyUnicode ''b'')"
    "encodable (Basic STRING) (PyUnicode ''x'')"
    by (rule encodable.String; simp)+
  have d: "encodable (Array (DictEntry [Basic INT32, Basic STRING]))
      (PyDict [(PyLong 1, PyUnicode ''a''), (PyLong 2, PyUnicode ''b'')])"
    by (rule encodable.Dict) (simp_all add: encodable.DictEntry i s py_eq_def)
  have "check_signature (render1 (Basic INT32))" by code_simp
  from encodable.Variant[OF i(3) this]
  have v: "encodable (Basic VARIANT) (PyTuple [PyUnicode ''i'', PyLong 42])" by simp
  have t: "encodable (Struct [Basic INT32, Basic STRING]) (PyTuple [PyLong 1, PyUnicode ''x''])"
    by (rule encodable.Struct) (simp_all add: i s)
  have b: "encodable (Array (Basic BYTE)) (PyBytes [1, 2])"
    by (rule encodable.ByteArray) simp
  have e: "list_all2 encodable ?ts ?vs" using d v t b by simp
  have p: "PySequence_items (PyTuple ?vs) = Some ?vs" by simp
  from message_set_args_round_trip[OF c e p] c e p show ?thesis
    unfolding r by blast
qed

end
